theory Spec2Isabelle
  imports Main "HOL-Library.AList"
begin

section \<open>Strings, exceptions and timestamps\<close>

text \<open>
  Python strings are modelled as \<^typ>\<open>string\<close>; a character stands for the code point of
  the same number (code points below 256). \<open>str.strip()\<close> without arguments removes the
  characters for which \<open>str.isspace()\<close> holds; below 256 these are the ones listed here.
\<close>

definition whitespace_chars :: "char list" where
  "whitespace_chars =
     [CHR 0x09, CHR 0x0A, CHR 0x0B, CHR 0x0C, CHR 0x0D,
      CHR 0x1C, CHR 0x1D, CHR 0x1E, CHR 0x1F, CHR 0x20, CHR 0x85, CHR 0xA0]"

definition is_space :: "char \<Rightarrow> bool" where
  "is_space c = (c \<in> set whitespace_chars)"

definition lstrip :: "string \<Rightarrow> string" where
  "lstrip s = dropWhile is_space s"

definition rstrip :: "string \<Rightarrow> string" where
  "rstrip s = rev (dropWhile is_space (rev s))"

definition strip :: "string \<Rightarrow> string" where
  "strip s = rstrip (lstrip s)"

text \<open>The spec's wording: a string that is empty or consists only of whitespace.\<close>

definition blank :: "string \<Rightarrow> bool" where
  "blank s = (s = [] \<or> list_all is_space s)"

text \<open>
  Exceptions are values. \<open>Raised\<close> is any exception coming out of code outside the
  memory bridge (a connector's \<open>gather()\<close>).
\<close>

datatype error = ValueError string | KeyError string | TypeError string | Raised string

text \<open>The apostrophe, for the messages and f-strings that contain one.\<close>

definition apostrophe :: string where
  "apostrophe = [CHR 0x27]"

text \<open>
  A \<open>datetime\<close>: its wall-clock reading (microseconds), and its \<open>tzinfo\<close> attribute.
  A tzinfo object has an identity and answers \<open>utcoffset(dt)\<close> for this datetime with
  \<open>None\<close> or an offset (microseconds).
\<close>

record tzinfo =
  tz_id :: nat
  tz_utcoffset :: "int option"

record datetime =
  wall :: int
  tzinfo :: "tzinfo option"

definition utcoffset :: "datetime \<Rightarrow> int option" where
  "utcoffset d = (case tzinfo d of None \<Rightarrow> None | Some z \<Rightarrow> tz_utcoffset z)"

text \<open>\<open>mytz is ottz\<close> in the comparison of two datetimes.\<close>

definition same_tzinfo :: "datetime \<Rightarrow> datetime \<Rightarrow> bool" where
  "same_tzinfo a b =
     (case tzinfo a of
        None \<Rightarrow> (case tzinfo b of None \<Rightarrow> True | Some y \<Rightarrow> False)
      | Some x \<Rightarrow> (case tzinfo b of None \<Rightarrow> False | Some y \<Rightarrow> tz_id x = tz_id y))"

text \<open>
  \<open>a >= b\<close> on datetimes: the wall clocks are compared when both have the same tzinfo
  object or the same offset; a naive and an aware datetime do not compare (TypeError);
  otherwise the UTC instants are compared.
\<close>

definition datetime_ge :: "datetime \<Rightarrow> datetime \<Rightarrow> error + bool" where
  "datetime_ge a b =
     (if same_tzinfo a b \<or> utcoffset a = utcoffset b then Inr (wall b \<le> wall a)
      else (case utcoffset a of
              None \<Rightarrow> Inl (TypeError (''can'' @ apostrophe @ ''t compare offset-naive and offset-aware datetimes''))
            | Some oa \<Rightarrow>
               (case utcoffset b of
                  None \<Rightarrow> Inl (TypeError (''can'' @ apostrophe @ ''t compare offset-naive and offset-aware datetimes''))
                | Some ob \<Rightarrow> Inr (wall b - ob \<le> wall a - oa))))"

section \<open>Entries and layers (entry.py, layer.py)\<close>

record MemoryEntry =
  layer :: string
  content :: string
  source :: string
  timestamp :: datetime

record MemoryLayer =
  layer_name :: string
  entries :: "MemoryEntry list"

definition MemoryLayer_init :: "string \<Rightarrow> MemoryLayer" where
  "MemoryLayer_init n = \<lparr>layer_name = n, entries = []\<rparr>"

definition add :: "MemoryLayer \<Rightarrow> MemoryEntry \<Rightarrow> error + MemoryLayer" where
  "add l e =
     (if layer e \<noteq> layer_name l then Inl (ValueError ''Entry layer mismatch'')
      else Inr (l\<lparr>entries := entries l @ [e]\<rparr>))"

definition all :: "MemoryLayer \<Rightarrow> MemoryEntry list" where
  "all l = entries l"

text \<open>
  The list comprehension of \<open>query\<close>: the comparison of each stored timestamp with
  \<open>since\<close> may raise, which ends the comprehension.
\<close>

fun entries_since :: "MemoryEntry list \<Rightarrow> datetime \<Rightarrow> error + MemoryEntry list" where
  "entries_since [] since = Inr []"
| "entries_since (e # es) since =
     (case datetime_ge (timestamp e) since of
        Inl err \<Rightarrow> Inl err
      | Inr keep \<Rightarrow>
         (case entries_since es since of
            Inl err \<Rightarrow> Inl err
          | Inr r \<Rightarrow> Inr (if keep then e # r else r)))"

definition query :: "MemoryLayer \<Rightarrow> datetime option \<Rightarrow> error + MemoryEntry list" where
  "query l since =
     (case since of
        None \<Rightarrow> Inr (all l)
      | Some t \<Rightarrow>
         (if tzinfo t = None \<or> utcoffset t = None
          then Inl (ValueError (apostrophe @ ''since'' @ apostrophe @ '' must be timezone-aware.''))
          else entries_since (entries l) t))"

section \<open>The catalog (catalog.py)\<close>

record FunctionSpec =
  spec_name :: string
  description :: string
  inputs :: "(string \<times> string) list"
  outputs :: "(string \<times> string) list"
  tags :: "string list"

text \<open>The dataclass constructor followed by \<open>__post_init__\<close>.\<close>

definition FunctionSpec_init ::
  "string \<Rightarrow> string \<Rightarrow> (string \<times> string) list \<Rightarrow> (string \<times> string) list \<Rightarrow> string list
    \<Rightarrow> error + FunctionSpec" where
  "FunctionSpec_init n d i out t =
     (let name = strip n in
      if name = [] then Inl (ValueError ''Function name cannot be empty.'')
      else if strip d = [] then Inl (ValueError ''Function description cannot be empty.'')
      else Inr \<lparr>spec_name = name, description = d, inputs = i, outputs = out, tags = t\<rparr>)"

text \<open>\<open>to_dict\<close> yields a dictionary with the same five keys.\<close>

record spec_dict =
  d_name :: string
  d_description :: string
  d_inputs :: "(string \<times> string) list"
  d_outputs :: "(string \<times> string) list"
  d_tags :: "string list"

definition to_dict :: "FunctionSpec \<Rightarrow> spec_dict" where
  "to_dict s =
     \<lparr>d_name = spec_name s, d_description = description s, d_inputs = inputs s,
      d_outputs = outputs s, d_tags = tags s\<rparr>"

text \<open>
  \<open>McpCatalog._functions\<close> is a dictionary, kept as an association list in insertion
  order; \<open>d[k] = v\<close> is \<^const>\<open>AList.update\<close>, which overwrites in place or appends.
\<close>

type_synonym McpCatalog = "(string \<times> FunctionSpec) list"

definition register :: "McpCatalog \<Rightarrow> FunctionSpec \<Rightarrow> bool \<Rightarrow> error option \<times> McpCatalog" where
  "register c s replace =
     (if map_of c (spec_name s) \<noteq> None \<and> \<not> replace
      then (Some (ValueError (''Function '' @ apostrophe @ spec_name s @ apostrophe @ '' is already registered.'')), c)
      else (None, AList.update (spec_name s) s c))"

definition describe :: "McpCatalog \<Rightarrow> spec_dict list" where
  "describe c = map to_dict (map snd c)"

text \<open>What a dictionary built by \<open>register\<close> satisfies: one slot per key, each spec under its own name.\<close>

definition catalog_ok :: "McpCatalog \<Rightarrow> bool" where
  "catalog_ok c = (distinct (map fst c) \<and> list_all (\<lambda>p. spec_name (snd p) = fst p) c)"

definition specs_named :: "McpCatalog \<Rightarrow> string \<Rightarrow> FunctionSpec list" where
  "specs_named c n = filter (\<lambda>s. spec_name s = n) (map snd c)"

section \<open>The witness network (witness.py)\<close>

text \<open>
  An intelligence node is an object with an identity. The protocol leaves its methods
  open; a node is modelled by what the bridge sees of it: \<open>node_updates\<close> is what its
  \<open>fetch_updates()\<close> returns when polled, and each \<open>apply_update(entry)\<close> it receives is
  recorded, in order, in the state's \<open>inbound\<close> at its identity.
\<close>

record IntelligenceNode =
  node_id :: nat
  node_name :: string
  node_updates :: "MemoryEntry list"

record WitnessNetwork =
  log :: "MemoryEntry list"
  subscribers :: "nat list"

section \<open>The bridge state (bridge.py)\<close>

text \<open>
  Layers are mutable objects shared between the bridge, the fusion loop and the callers
  that hold them, so they live in a store: \<open>heap\<close> lists the MemoryLayer objects
  created so far, an object's address is its index, and a new object goes at the end.
  \<open>layers\<close> is the dictionary from layer names to layer objects that
  \<open>MemoryBridge\<close> and its \<open>FusionLoop\<close> share.
\<close>

record MemoryBridge =
  heap :: "MemoryLayer list"
  layers :: "(string \<times> nat) list"
  witnesses :: WitnessNetwork
  catalog :: McpCatalog
  inbound :: "nat \<Rightarrow> MemoryEntry list"

text \<open>\<open>MemoryBridge()\<close> with no arguments.\<close>

definition MemoryBridge_init :: MemoryBridge where
  "MemoryBridge_init =
     \<lparr>heap = [], layers = [], witnesses = \<lparr>log = [], subscribers = []\<rparr>, catalog = [],
      inbound = (\<lambda>n. [])\<rparr>"

text \<open>\<open>MemoryLayer(name)\<close>: a new object in the store; its address is returned.\<close>

definition new_layer :: "MemoryBridge \<Rightarrow> string \<Rightarrow> nat \<times> MemoryBridge" where
  "new_layer b n = (length (heap b), b\<lparr>heap := heap b @ [MemoryLayer_init n]\<rparr>)"

text \<open>\<open>layer.add(entry)\<close> on the object at an address.\<close>

definition layer_add :: "MemoryBridge \<Rightarrow> nat \<Rightarrow> MemoryEntry \<Rightarrow> error option \<times> MemoryBridge" where
  "layer_add b a e =
     (case add (heap b ! a) e of
        Inl err \<Rightarrow> (Some err, b)
      | Inr l \<Rightarrow> (None, b\<lparr>heap := (heap b)[a := l]\<rparr>))"

definition witness_register :: "MemoryBridge \<Rightarrow> nat \<Rightarrow> MemoryBridge" where
  "witness_register b n =
     b\<lparr>witnesses := (witnesses b)\<lparr>subscribers := subscribers (witnesses b) @ [n]\<rparr>\<rparr>"

definition apply_update :: "MemoryBridge \<Rightarrow> nat \<Rightarrow> MemoryEntry \<Rightarrow> MemoryBridge" where
  "apply_update b n e = b\<lparr>inbound := (inbound b)(n := inbound b n @ [e])\<rparr>"

text \<open>The loop over the subscribers in \<open>broadcast\<close>.\<close>

fun deliver :: "MemoryBridge \<Rightarrow> MemoryEntry \<Rightarrow> nat option \<Rightarrow> nat list \<Rightarrow> MemoryBridge" where
  "deliver b e origin [] = b"
| "deliver b e origin (n # ns) =
     (if origin \<noteq> None \<and> Some n = origin then deliver b e origin ns
      else deliver (apply_update b n e) e origin ns)"

definition broadcast :: "MemoryBridge \<Rightarrow> MemoryEntry \<Rightarrow> nat option \<Rightarrow> MemoryBridge" where
  "broadcast b e origin =
     (let b1 = b\<lparr>witnesses := (witnesses b)\<lparr>log := log (witnesses b) @ [e]\<rparr>\<rparr>
      in deliver b1 e origin (subscribers (witnesses b1)))"

text \<open>
  \<open>_register_layer_spec\<close>: the spec is built by the FunctionSpec constructor, which may
  raise, and registered with \<open>replace=True\<close>.
\<close>

definition register_layer_spec :: "MemoryBridge \<Rightarrow> string \<Rightarrow> error option \<times> MemoryBridge" where
  "register_layer_spec b n =
     (case FunctionSpec_init (''memory.fetch_'' @ n)
             (''Retrieve stored entries from the '' @ apostrophe @ n @ apostrophe @ '' memory layer.'')
             [(''since'', ''Optional ISO-8601 timestamp used to filter results.'')]
             [(''entries'',
               ''List of serialized memory entries with layer, source, content, and timestamp.'')]
             [''memory'', n] of
        Inl err \<Rightarrow> (Some err, b)
      | Inr spec \<Rightarrow>
         (case register (catalog b) spec True of
            (r, c) \<Rightarrow> (r, b\<lparr>catalog := c\<rparr>)))"

definition register_layer :: "MemoryBridge \<Rightarrow> string \<Rightarrow> (error + nat) \<times> MemoryBridge" where
  "register_layer b n =
     (if strip n = [] then (Inl (ValueError ''Layer name cannot be empty.''), b)
      else (case map_of (layers b) n of
              Some a \<Rightarrow> (Inr a, b)
            | None \<Rightarrow>
               (case new_layer b n of
                  (a, b1) \<Rightarrow>
                    (case register_layer_spec (b1\<lparr>layers := AList.update n a (layers b1)\<rparr>) n of
                       (Some err, b2) \<Rightarrow> (Inl err, b2)
                     | (None, b2) \<Rightarrow> (Inr a, b2)))))"

definition get_layer :: "MemoryBridge \<Rightarrow> string \<Rightarrow> error + nat" where
  "get_layer b n = (case map_of (layers b) n of None \<Rightarrow> Inl (KeyError n) | Some a \<Rightarrow> Inr a)"

definition register_node :: "MemoryBridge \<Rightarrow> IntelligenceNode \<Rightarrow> MemoryBridge" where
  "register_node b node = witness_register b (node_id node)"

definition describe_functions :: "MemoryBridge \<Rightarrow> spec_dict list" where
  "describe_functions b = describe (catalog b)"

section \<open>The fusion loop (fusion.py)\<close>

text \<open>
  \<open>self.layers.setdefault(entry.layer, MemoryLayer(entry.layer))\<close>: the default is
  constructed before the lookup, and stored under the key only when the key is absent.
\<close>

definition setdefault_layer :: "MemoryBridge \<Rightarrow> string \<Rightarrow> nat \<times> MemoryBridge" where
  "setdefault_layer b k =
     (case new_layer b k of
        (a, b1) \<Rightarrow>
          (case map_of (layers b1) k of
             Some a' \<Rightarrow> (a', b1)
           | None \<Rightarrow> (a, b1\<lparr>layers := AList.update k a (layers b1)\<rparr>)))"

text \<open>The inner loop of \<open>cycle\<close>, over the entries one node returned.\<close>

fun cycle_entries :: "MemoryBridge \<Rightarrow> nat \<Rightarrow> MemoryEntry list \<Rightarrow> error option \<times> MemoryBridge" where
  "cycle_entries b origin [] = (None, b)"
| "cycle_entries b origin (e # es) =
     (case setdefault_layer b (layer e) of
        (a, b1) \<Rightarrow>
          (case layer_add b1 a e of
             (Some err, b2) \<Rightarrow> (Some err, b2)
           | (None, b2) \<Rightarrow> cycle_entries (broadcast b2 e (Some origin)) origin es))"

fun cycle :: "MemoryBridge \<Rightarrow> IntelligenceNode list \<Rightarrow> error option \<times> MemoryBridge" where
  "cycle b [] = (None, b)"
| "cycle b (node # nodes) =
     (case cycle_entries b (node_id node) (node_updates node) of
        (Some err, b1) \<Rightarrow> (Some err, b1)
      | (None, b1) \<Rightarrow> cycle b1 nodes)"

definition sync :: "MemoryBridge \<Rightarrow> IntelligenceNode list \<Rightarrow> error option \<times> MemoryBridge" where
  "sync b nodes = cycle b nodes"

text \<open>The entries of the layer object stored under a name, if there is one.\<close>

definition layer_entries :: "MemoryBridge \<Rightarrow> string \<Rightarrow> MemoryEntry list option" where
  "layer_entries b k = (case map_of (layers b) k of None \<Rightarrow> None | Some a \<Rightarrow> Some (all (heap b ! a)))"

section \<open>The operator (operator.py)\<close>

text \<open>
  A connector is seen through its name and through what one call of \<open>gather()\<close>,
  materialised by \<open>list(...)\<close>, gives: the entries, or the exception it raised.
\<close>

record Connector =
  connector_name :: string
  gather :: "error + MemoryEntry list"

record ConnectorAudit =
  audit_name :: string
  produced :: int
  layer_counts :: "(string \<times> int) list"
  alerts :: "string list"

record AuditReport =
  report_timestamp :: datetime
  connectors :: "ConnectorAudit list"

record OperatorCore =
  bridge :: MemoryBridge
  registered :: "(string \<times> Connector) list"

text \<open>
  \<open>registered\<close> is the operator's dictionary \<open>connectors\<close> (the report has a field of
  that name too). \<open>OperatorCore()\<close> on a given bridge, and \<open>register_connector\<close>.
\<close>

definition OperatorCore_init :: "MemoryBridge \<Rightarrow> Connector list \<Rightarrow> OperatorCore" where
  "OperatorCore_init b cs =
     \<lparr>bridge = b, registered = foldl (\<lambda>d c. AList.update (connector_name c) c d) [] cs\<rparr>"

definition register_connector :: "OperatorCore \<Rightarrow> Connector \<Rightarrow> OperatorCore" where
  "register_connector op c = op\<lparr>registered := AList.update (connector_name c) c (registered op)\<rparr>"

text \<open>\<open>d.get(k, 0)\<close> on a dictionary of counts.\<close>

definition get_count :: "(string \<times> int) list \<Rightarrow> string \<Rightarrow> int" where
  "get_count d k = (case map_of d k of None \<Rightarrow> 0 | Some v \<Rightarrow> v)"

text \<open>
  The inner loop of \<open>run_cycle\<close> over one connector's entries, with the running
  \<open>layer_counts\<close> and \<open>alerts\<close>. An exception leaves the bridge as far as it got.
\<close>

fun ingest ::
  "MemoryBridge \<Rightarrow> MemoryEntry list \<Rightarrow> (string \<times> int) list \<Rightarrow> string list
    \<Rightarrow> (error + (string \<times> int) list \<times> string list) \<times> MemoryBridge" where
  "ingest b [] counts al = (Inr (counts, al), b)"
| "ingest b (e # es) counts al =
     (case register_layer b (layer e) of
        (Inl err, b1) \<Rightarrow> (Inl err, b1)
      | (Inr a, b1) \<Rightarrow>
          (case layer_add b1 a e of
             (Some err, b2) \<Rightarrow> (Inl err, b2)
           | (None, b2) \<Rightarrow>
               ingest b2 es
                 (AList.update (layer e) (get_count counts (layer e) + 1) counts)
                 (if layer e = ''ingestion_alerts'' then al @ [content e] else al)))"

text \<open>The outer loop, over the registered connectors in dictionary order.\<close>

fun run_connectors ::
  "MemoryBridge \<Rightarrow> Connector list \<Rightarrow> ConnectorAudit list
    \<Rightarrow> (error + ConnectorAudit list) \<times> MemoryBridge" where
  "run_connectors b [] audits = (Inr audits, b)"
| "run_connectors b (c # cs) audits =
     (case gather c of
        Inl err \<Rightarrow> (Inl err, b)
      | Inr es \<Rightarrow>
          (case ingest b es [] [] of
             (Inl err, b1) \<Rightarrow> (Inl err, b1)
           | (Inr (counts, al), b1) \<Rightarrow>
               run_connectors b1 cs
                 (audits @ [\<lparr>audit_name = connector_name c, produced = int (length es),
                              layer_counts = counts, alerts = al\<rparr>])))"

text \<open>\<open>run_cycle\<close>; \<open>now\<close> is what \<open>datetime.now(timezone.utc)\<close> returns.\<close>

definition run_cycle :: "OperatorCore \<Rightarrow> datetime \<Rightarrow> (error + AuditReport) \<times> OperatorCore" where
  "run_cycle op now =
     (case run_connectors (bridge op) (map snd (registered op)) [] of
        (Inl err, b) \<Rightarrow> (Inl err, op\<lparr>bridge := b\<rparr>)
      | (Inr audits, b) \<Rightarrow>
          (Inr \<lparr>report_timestamp = now, connectors = audits\<rparr>, op\<lparr>bridge := b\<rparr>))"

definition layer_snapshot :: "OperatorCore \<Rightarrow> (string \<times> MemoryEntry list) list" where
  "layer_snapshot op = map (\<lambda>(k, a). (k, all (heap (bridge op) ! a))) (layers (bridge op))"

text \<open>\<open>str(n)\<close> for a length, as the f-string formats it.\<close>

definition digit_char :: "nat \<Rightarrow> char" where
  "digit_char d = ''0123456789'' ! d"

fun str_nat :: "nat \<Rightarrow> string" where
  "str_nat n = (if n < 10 then [digit_char n] else str_nat (n div 10) @ [digit_char (n mod 10)])"

definition no_entries_message :: "string \<Rightarrow> string" where
  "no_entries_message n =
     ''Connector '' @ apostrophe @ n @ apostrophe @ '' produced no entries. Verify its data sources.''"

definition alerts_message :: "string \<Rightarrow> nat \<Rightarrow> string" where
  "alerts_message n k =
     ''Connector '' @ apostrophe @ n @ apostrophe @ '' emitted '' @ str_nat k
       @ '' alerts that require review.''"

definition nominal_message :: string where
  "nominal_message = ''All connectors are operating nominally. Continue monitoring throughput.''"

text \<open>The loop of \<open>generate_recommendations\<close> over the audits of the report.\<close>

fun audit_recommendations :: "ConnectorAudit list \<Rightarrow> string list \<Rightarrow> string list" where
  "audit_recommendations [] recs = recs"
| "audit_recommendations (a # as) recs =
     (let recs1 = (if produced a = 0 then recs @ [no_entries_message (audit_name a)] else recs);
          recs2 = (if alerts a \<noteq> [] then recs1 @ [alerts_message (audit_name a) (length (alerts a))]
                   else recs1)
      in audit_recommendations as recs2)"

definition generate_recommendations :: "AuditReport \<Rightarrow> string list" where
  "generate_recommendations report =
     (let recs = audit_recommendations (connectors report) []
      in if recs = [] then recs @ [nominal_message] else recs)"

section \<open>Invariants and observations used in the statements\<close>

text \<open>
  What the layer dictionary of a bridge satisfies when its layers were created by
  \<open>register_layer\<close> or by the fusion loop: every name leads to an object of the store
  that carries this name.
\<close>

definition layers_ok :: "MemoryBridge \<Rightarrow> bool" where
  "layers_ok b =
     list_all (\<lambda>p. snd p < length (heap b) \<and> layer_name (heap b ! snd p) = fst p) (layers b)"

text \<open>Every layer of the dictionary has the catalog entry that \<open>_register_layer_spec\<close> gives it.\<close>

definition layers_synced :: "MemoryBridge \<Rightarrow> bool" where
  "layers_synced b =
     list_all (\<lambda>p. map_of (catalog b) (''memory.fetch_'' @ rstrip (fst p)) \<noteq> None) (layers b)"

text \<open>The entries stored under a layer name; none when there is no such layer.\<close>

definition stored :: "MemoryBridge \<Rightarrow> string \<Rightarrow> MemoryEntry list" where
  "stored b k = (case layer_entries b k of None \<Rightarrow> [] | Some es \<Rightarrow> es)"

text \<open>The spec that \<open>_register_layer_spec\<close> ends up registering for a layer name.\<close>

definition layer_spec :: "string \<Rightarrow> FunctionSpec" where
  "layer_spec n =
     \<lparr>spec_name = ''memory.fetch_'' @ rstrip n,
      description =
        ''Retrieve stored entries from the '' @ apostrophe @ n @ apostrophe @ '' memory layer.'',
      inputs = [(''since'', ''Optional ISO-8601 timestamp used to filter results.'')],
      outputs = [(''entries'',
               ''List of serialized memory entries with layer, source, content, and timestamp.'')],
      tags = [''memory'', n]\<rparr>"

text \<open>
  A history of calls on a bridge: \<open>register_layer\<close>, \<open>register_node\<close> and \<open>sync\<close>,
  each leaving the bridge as the call left it, also when the call raised.
\<close>

datatype bridge_call =
  RegisterLayer string
| RegisterNode IntelligenceNode
| Sync "IntelligenceNode list"

fun bridge_step :: "MemoryBridge \<Rightarrow> bridge_call \<Rightarrow> MemoryBridge" where
  "bridge_step b (RegisterLayer n) = snd (register_layer b n)"
| "bridge_step b (RegisterNode node) = register_node b node"
| "bridge_step b (Sync nodes) = snd (sync b nodes)"

fun run_calls :: "MemoryBridge \<Rightarrow> bridge_call list \<Rightarrow> MemoryBridge" where
  "run_calls b [] = b"
| "run_calls b (c # cs) = run_calls (bridge_step b c) cs"

text \<open>Every update of the polled nodes names a layer that the bridge already has.\<close>

definition names_known_layers :: "MemoryBridge \<Rightarrow> IntelligenceNode list \<Rightarrow> bool" where
  "names_known_layers b nodes =
     list_all (\<lambda>node. list_all (\<lambda>e. map_of (layers b) (layer e) \<noteq> None) (node_updates node)) nodes"

text \<open>A history in which every \<open>sync\<close> finds the layers of its updates already there.\<close>

fun syncs_known_layers :: "MemoryBridge \<Rightarrow> bridge_call list \<Rightarrow> bool" where
  "syncs_known_layers b [] = True"
| "syncs_known_layers b (c # cs) =
     ((case c of Sync nodes \<Rightarrow> names_known_layers b nodes | _ \<Rightarrow> True)
      \<and> syncs_known_layers (bridge_step b c) cs)"

definition is_alert :: "MemoryEntry \<Rightarrow> bool" where
  "is_alert e = (layer e = ''ingestion_alerts'')"

definition on_layer :: "string \<Rightarrow> MemoryEntry list \<Rightarrow> MemoryEntry list" where
  "on_layer k es = filter (\<lambda>e. layer e = k) es"

text \<open>What a connector's \<open>gather()\<close> returned, when it returned.\<close>

definition gathered :: "Connector \<Rightarrow> MemoryEntry list" where
  "gathered c = (case gather c of Inl err \<Rightarrow> [] | Inr es \<Rightarrow> es)"

text \<open>\<open>gather()\<close> returned, and every entry names a layer that \<open>register_layer\<close> accepts.\<close>

definition gathers_cleanly :: "Connector \<Rightarrow> bool" where
  "gathers_cleanly c =
     (case gather c of Inl err \<Rightarrow> False | Inr es \<Rightarrow> list_all (\<lambda>e. \<not> blank (layer e)) es)"

section \<open>Example inputs\<close>

definition utc :: tzinfo where
  "utc = \<lparr>tz_id = 0, tz_utcoffset = Some 0\<rparr>"

definition aware :: "int \<Rightarrow> datetime" where
  "aware t = \<lparr>wall = t, tzinfo = Some utc\<rparr>"

definition naive :: "int \<Rightarrow> datetime" where
  "naive t = \<lparr>wall = t, tzinfo = None\<rparr>"

definition entry_at :: "string \<Rightarrow> string \<Rightarrow> datetime \<Rightarrow> MemoryEntry" where
  "entry_at l c t = \<lparr>layer = l, content = c, source = ''sensor'', timestamp = t\<rparr>"

text \<open>A layer whose insertion order is not its timestamp order, and one holding a naive timestamp.\<close>

definition unsorted_layer :: MemoryLayer where
  "unsorted_layer =
     \<lparr>layer_name = ''legal_evidence'',
      entries = [entry_at ''legal_evidence'' ''first'' (aware 1),
                 entry_at ''legal_evidence'' ''third'' (aware 3),
                 entry_at ''legal_evidence'' ''second'' (aware 2)]\<rparr>"

definition naive_layer :: MemoryLayer where
  "naive_layer =
     \<lparr>layer_name = ''legal_evidence'',
      entries = [entry_at ''legal_evidence'' ''first'' (naive 1)]\<rparr>"

definition fetch_spec :: "string \<Rightarrow> FunctionSpec" where
  "fetch_spec d =
     \<lparr>spec_name = ''memory.fetch_legal_evidence'', description = d,
      inputs = [(''since'', ''ISO-8601 timestamp'')], outputs = [(''entries'', ''Serialized entries'')],
      tags = [''memory'', ''legal_evidence'']\<rparr>"

text \<open>A catalog with a second capability behind the fetch spec.\<close>

definition two_spec_catalog :: McpCatalog where
  "two_spec_catalog =
     [(''memory.fetch_legal_evidence'', fetch_spec ''old''),
      (''other.capability'',
       \<lparr>spec_name = ''other.capability'', description = ''Another capability.'',
        inputs = [], outputs = [], tags = [''other'']\<rparr>)]"

text \<open>Two nodes registered with a new witness network, as in the fusion test.\<close>

definition node_A :: IntelligenceNode where
  "node_A = \<lparr>node_id = 1, node_name = ''A'',
             node_updates = [entry_at ''legal_evidence'' ''doc1'' (aware 1),
                             entry_at ''legal_evidence'' ''doc2'' (aware 2)]\<rparr>"

definition node_B :: IntelligenceNode where
  "node_B = \<lparr>node_id = 2, node_name = ''B'', node_updates = []\<rparr>"

definition two_node_bridge :: MemoryBridge where
  "two_node_bridge = register_node (register_node MemoryBridge_init node_A) node_B"

text \<open>A history that registers the layer before the node is synchronised.\<close>

definition registered_then_synced :: "bridge_call list" where
  "registered_then_synced = [RegisterNode node_A, RegisterLayer ''legal_evidence'', Sync [node_A]]"

text \<open>A node whose update names a layer that nobody registered.\<close>

definition node_X :: IntelligenceNode where
  "node_X = \<lparr>node_id = 1, node_name = ''X'', node_updates = [entry_at ''x'' ''doc'' (aware 1)]\<rparr>"

text \<open>The operators of the end-to-end scenario, and one whose second connector raises.\<close>

definition files_connector :: Connector where
  "files_connector =
     \<lparr>connector_name = ''FILES'', gather = Inr [entry_at ''legal_evidence'' ''note.txt'' (aware 1)]\<rparr>"

definition alert_connector :: Connector where
  "alert_connector =
     \<lparr>connector_name = ''ALERT'',
      gather = Inr [entry_at ''ingestion_alerts'' ''dependency missing'' (aware 1)]\<rparr>"

definition broken_connector :: Connector where
  "broken_connector = \<lparr>connector_name = ''BROKEN'', gather = Inl (Raised ''boom'')\<rparr>"

definition alert_operator :: OperatorCore where
  "alert_operator = OperatorCore_init MemoryBridge_init [files_connector, alert_connector]"

definition broken_operator :: OperatorCore where
  "broken_operator =
     OperatorCore_init MemoryBridge_init [files_connector, broken_connector, alert_connector]"

definition alert_report :: AuditReport where
  "alert_report =
     \<lparr>report_timestamp = aware 5,
      connectors =
        [\<lparr>audit_name = ''FILES'', produced = 1, layer_counts = [(''legal_evidence'', 1)], alerts = []\<rparr>,
         \<lparr>audit_name = ''ALERT'', produced = 1, layer_counts = [(''ingestion_alerts'', 1)],
          alerts = [''dependency missing'']\<rparr>,
         \<lparr>audit_name = ''EMPTY'', produced = 0, layer_counts = [], alerts = []\<rparr>]\<rparr>"

definition nominal_report :: AuditReport where
  "nominal_report =
     \<lparr>report_timestamp = aware 5,
      connectors =
        [\<lparr>audit_name = ''FILES'', produced = 1, layer_counts = [(''legal_evidence'', 1)], alerts = []\<rparr>]\<rparr>"

section \<open>Stripping\<close>

lemma strip_Nil_iff: "strip s = [] \<longleftrightarrow> list_all is_space s"
proof -
  have "strip s = [] \<longleftrightarrow> list_all is_space (dropWhile is_space s)"
    by (auto simp: strip_def rstrip_def lstrip_def list_all_iff dest: set_dropWhileD)
  also have "\<dots> \<longleftrightarrow> list_all is_space s"
  proof (cases "dropWhile is_space s")
    case Nil
    then have "\<forall>x\<in>set s. is_space x" by simp
    then show ?thesis unfolding Nil by (simp add: list_all_iff)
  next
    case (Cons c cs)
    then have "\<not> is_space c" using hd_dropWhile [of is_space s] by auto
    moreover have "c \<in> set s" using Cons set_dropWhileD [of c is_space s] by auto
    ultimately show ?thesis using Cons by (auto simp: list_all_iff)
  qed
  finally show ?thesis .
qed

lemma strip_Nil_blank: "strip s = [] \<longleftrightarrow> blank s"
  by (auto simp: strip_Nil_iff blank_def)

lemma rstrip_after_prefix:
  assumes "p \<noteq> []" and "\<not> is_space (last p)"
  shows "rstrip (p @ n) = p @ rstrip n"
proof (cases "\<forall>c\<in>set n. is_space c")
  case True
  have "dropWhile is_space (rev p) = rev p"
    using assms by (cases p rule: rev_cases) auto
  then show ?thesis using True by (simp add: rstrip_def dropWhile_append)
next
  case False
  then show ?thesis by (auto simp add: rstrip_def dropWhile_append)
qed

lemma strip_fetch_name: "strip (''memory.fetch_'' @ n) = ''memory.fetch_'' @ rstrip n"
proof -
  have "lstrip (''memory.fetch_'' @ n) = ''memory.fetch_'' @ n"
    by (simp add: lstrip_def is_space_def whitespace_chars_def)
  moreover have "rstrip (''memory.fetch_'' @ n) = ''memory.fetch_'' @ rstrip n"
    by (rule rstrip_after_prefix) (simp_all add: is_space_def whitespace_chars_def)
  ultimately show ?thesis by (simp add: strip_def)
qed

lemma strip_description: "strip (''Retrieve stored entries from the '' @ s) \<noteq> []"
  by (simp add: strip_Nil_iff is_space_def whitespace_chars_def)

lemma rstrip_no_trailing_space: "n \<noteq> [] \<Longrightarrow> \<not> is_space (last n) \<Longrightarrow> rstrip n = n"
  by (cases n rule: rev_cases) (simp_all add: rstrip_def)

section \<open>The catalog\<close>

lemma register_present: "map_of (snd (register c s r)) (spec_name s) \<noteq> None"
  by (simp add: register_def update_conv')

lemma update_absent: "map_of c k = None \<Longrightarrow> AList.update k v c = c @ [(k, v)]"
  by (induction c) (auto split: if_splits)

lemma specs_named_absent:
  "list_all (\<lambda>p. spec_name (snd p) = fst p) c \<Longrightarrow> k \<notin> fst ` set c \<Longrightarrow> specs_named c k = []"
  by (induction c) (auto simp: specs_named_def)

lemma specs_named_update:
  "catalog_ok c \<Longrightarrow> specs_named (AList.update (spec_name s) s c) (spec_name s) = [s]"
proof (induction c)
  case Nil
  then show ?case by (simp add: specs_named_def)
next
  case (Cons p ps)
  show ?case
  proof (cases "fst p = spec_name s")
    case True
    have "list_all (\<lambda>p. spec_name (snd p) = fst p) ps" and "spec_name s \<notin> fst ` set ps"
      using Cons.prems True by (force simp: catalog_ok_def)+
    then have "specs_named ps (spec_name s) = []"
      by (rule specs_named_absent)
    then show ?thesis using True by (simp add: specs_named_def)
  next
    case False
    have "catalog_ok ps" using Cons.prems by (simp add: catalog_ok_def)
    then have "specs_named (AList.update (spec_name s) s ps) (spec_name s) = [s]"
      by (rule Cons.IH)
    moreover have "spec_name (snd p) \<noteq> spec_name s"
      using Cons.prems False by (simp add: catalog_ok_def)
    ultimately show ?thesis using False by (simp add: specs_named_def)
  qed
qed

lemma specs_named_present:
  "catalog_ok c \<Longrightarrow> map_of c k = Some s \<Longrightarrow> specs_named c k = [s]"
proof (induction c)
  case Nil
  then show ?case by simp
next
  case (Cons p ps)
  have ok: "catalog_ok ps" using Cons.prems(1) by (simp add: catalog_ok_def)
  show ?case
  proof (cases "fst p = k")
    case True
    have "list_all (\<lambda>p. spec_name (snd p) = fst p) ps" and "k \<notin> fst ` set ps"
      using Cons.prems(1) True by (force simp: catalog_ok_def)+
    then have "specs_named ps k = []" by (rule specs_named_absent)
    moreover have "snd p = s" using Cons.prems(2) True by (cases p) simp
    moreover have "spec_name (snd p) = k" using Cons.prems(1) True by (simp add: catalog_ok_def)
    ultimately show ?thesis by (simp add: specs_named_def)
  next
    case False
    then have "map_of ps k = Some s" using Cons.prems(2) by (cases p) (simp split: if_splits)
    with ok have "specs_named ps k = [s]" by (rule Cons.IH)
    moreover have "spec_name (snd p) \<noteq> k" using Cons.prems(1) False by (simp add: catalog_ok_def)
    ultimately show ?thesis by (simp add: specs_named_def)
  qed
qed

lemma catalog_ok_update: "catalog_ok c \<Longrightarrow> catalog_ok (AList.update (spec_name s) s c)"
proof (induction c)
  case Nil
  then show ?case by (simp add: catalog_ok_def)
next
  case (Cons p ps)
  then have "catalog_ok ps" by (simp add: catalog_ok_def)
  then have ih: "catalog_ok (AList.update (spec_name s) s ps)" by (rule Cons.IH)
  show ?case
  proof (cases "fst p = spec_name s")
    case True
    then have "AList.update (spec_name s) s (p # ps) = (spec_name s, s) # ps" by simp
    moreover have "spec_name s \<notin> fst ` set ps"
      using Cons.prems True by (force simp: catalog_ok_def)
    moreover have "distinct (map fst ps)" and "list_all (\<lambda>p. spec_name (snd p) = fst p) ps"
      using Cons.prems by (simp_all add: catalog_ok_def)
    ultimately show ?thesis by (simp add: catalog_ok_def)
  next
    case False
    then show ?thesis using Cons.prems ih by (auto simp: catalog_ok_def AList.dom_update)
  qed
qed

lemma describe_named: "filter (\<lambda>d. d_name d = n) (describe c) = map to_dict (specs_named c n)"
  by (induction c) (auto simp: describe_def specs_named_def to_dict_def)

lemma specs_named_update_other:
  "catalog_ok c \<Longrightarrow> n \<noteq> spec_name s \<Longrightarrow>
   specs_named (AList.update (spec_name s) s c) n = specs_named c n"
proof (induction c)
  case Nil
  then show ?case by (simp add: specs_named_def)
next
  case (Cons p ps)
  have ok: "catalog_ok ps" and nm: "spec_name (snd p) = fst p"
    using Cons.prems(1) by (simp_all add: catalog_ok_def)
  have ih: "specs_named (AList.update (spec_name s) s ps) n = specs_named ps n"
    using ok Cons.prems(2) by (rule Cons.IH)
  show ?case
  proof (cases "fst p = spec_name s")
    case True
    then have "spec_name (snd p) \<noteq> n" using nm Cons.prems(2) by simp
    then show ?thesis using True Cons.prems(2) by (simp add: specs_named_def)
  next
    case False
    then show ?thesis using ih by (simp add: specs_named_def)
  qed
qed

lemma update_keeps_keys:
  "map_of c k \<noteq> None \<Longrightarrow> map fst (AList.update k v c) = map fst c"
  by (induction c) (auto split: if_splits)

text \<open>
  C6. \<open>McpCatalog.register\<close> without \<open>replace\<close> raises when the name of the spec is
  already present, and the catalog is then unchanged; when the name is absent the spec is
  added at the end. With \<open>replace=True\<close> registration always succeeds, the catalog then
  holds the given spec under that name and every other name as before, an overwritten
  name keeps its place, and, in a catalog built by \<open>register\<close>, \<open>describe()\<close> shows for
  that name one dictionary, which carries the name, description, inputs, outputs and tags
  of the latest spec, and for every other name what it showed before.
\<close>

theorem register_duplicate_contract:
  "(map_of c (spec_name s) \<noteq> None \<longrightarrow> (\<exists>err. register c s False = (Some err, c)))
   \<and> (map_of c (spec_name s) = None \<longrightarrow> register c s False = (None, c @ [(spec_name s, s)]))
   \<and> fst (register c s True) = None
   \<and> map_of (snd (register c s True)) (spec_name s) = Some s
   \<and> (catalog_ok c \<longrightarrow>
        filter (\<lambda>d. d_name d = spec_name s) (describe (snd (register c s True))) = [to_dict s])
   \<and> (catalog_ok c \<longrightarrow>
        filter (\<lambda>d. d_name d = spec_name s) (describe (snd (register c s True)))
          = [\<lparr>d_name = spec_name s, d_description = description s, d_inputs = inputs s,
              d_outputs = outputs s, d_tags = tags s\<rparr>])
   \<and> (\<forall>n. n \<noteq> spec_name s \<longrightarrow> map_of (snd (register c s True)) n = map_of c n)
   \<and> (\<forall>n. catalog_ok c \<and> n \<noteq> spec_name s \<longrightarrow>
        filter (\<lambda>d. d_name d = n) (describe (snd (register c s True)))
          = filter (\<lambda>d. d_name d = n) (describe c))
   \<and> (catalog_ok c \<and> map_of c (spec_name s) \<noteq> None \<longrightarrow>
        map d_name (describe (snd (register c s True))) = map d_name (describe c))
   \<and> (catalog_ok c \<longrightarrow> catalog_ok (snd (register c s True)))"
proof -
  have a: "map_of c (spec_name s) \<noteq> None \<longrightarrow> (\<exists>err. register c s False = (Some err, c))"
    by (simp add: register_def)
  have b: "map_of c (spec_name s) = None \<longrightarrow> register c s False = (None, c @ [(spec_name s, s)])"
    by (simp add: register_def update_absent)
  have r: "register c s True = (None, AList.update (spec_name s) s c)"
    by (simp add: register_def)
  have d: "catalog_ok c \<longrightarrow>
        filter (\<lambda>d. d_name d = spec_name s) (describe (AList.update (spec_name s) s c)) = [to_dict s]"
    by (simp add: describe_named specs_named_update)
  have e: "\<forall>n. catalog_ok c \<and> n \<noteq> spec_name s \<longrightarrow>
        filter (\<lambda>d. d_name d = n) (describe (AList.update (spec_name s) s c))
          = filter (\<lambda>d. d_name d = n) (describe c)"
    by (simp add: describe_named specs_named_update_other)
  have names: "map d_name (describe x) = map fst x" if "catalog_ok x" for x
  proof -
    have "list_all (\<lambda>p. spec_name (snd p) = fst p) x" using that by (simp add: catalog_ok_def)
    then have "map (\<lambda>p. spec_name (snd p)) x = map fst x" by (induction x) simp_all
    then show ?thesis by (simp add: describe_def to_dict_def)
  qed
  have f: "catalog_ok c \<and> map_of c (spec_name s) \<noteq> None \<longrightarrow>
        map d_name (describe (AList.update (spec_name s) s c)) = map d_name (describe c)"
    using names [of c] names [of "AList.update (spec_name s) s c"]
    by (simp add: catalog_ok_update update_keeps_keys)
  have g: "catalog_ok c \<longrightarrow> catalog_ok (AList.update (spec_name s) s c)"
    by (simp add: catalog_ok_update)
  show ?thesis
    unfolding r using a b d e f g by (simp add: update_conv' to_dict_def)
qed

theorem register_duplicate_contract_witness:
  "map_of [] (spec_name (fetch_spec ''old'')) = None
   \<and> register [] (fetch_spec ''old'') False = (None, [(''memory.fetch_legal_evidence'', fetch_spec ''old'')])
   \<and> map_of [(''memory.fetch_legal_evidence'', fetch_spec ''old'')] (spec_name (fetch_spec ''new'')) \<noteq> None
   \<and> catalog_ok [(''memory.fetch_legal_evidence'', fetch_spec ''old'')]
   \<and> fst (register [(''memory.fetch_legal_evidence'', fetch_spec ''old'')] (fetch_spec ''new'') False) \<noteq> None
   \<and> snd (register [(''memory.fetch_legal_evidence'', fetch_spec ''old'')] (fetch_spec ''new'') False)
        = [(''memory.fetch_legal_evidence'', fetch_spec ''old'')]
   \<and> describe (snd (register [(''memory.fetch_legal_evidence'', fetch_spec ''old'')] (fetch_spec ''new'') True))
        = [to_dict (fetch_spec ''new'')]
   \<and> describe [(''memory.fetch_legal_evidence'', fetch_spec ''old'')]
        = [\<lparr>d_name = ''memory.fetch_legal_evidence'', d_description = ''old'',
            d_inputs = [(''since'', ''ISO-8601 timestamp'')],
            d_outputs = [(''entries'', ''Serialized entries'')],
            d_tags = [''memory'', ''legal_evidence'']\<rparr>]
   \<and> describe (snd (register [(''memory.fetch_legal_evidence'', fetch_spec ''old'')] (fetch_spec ''new'') True))
        = [\<lparr>d_name = ''memory.fetch_legal_evidence'', d_description = ''new'',
            d_inputs = [(''since'', ''ISO-8601 timestamp'')],
            d_outputs = [(''entries'', ''Serialized entries'')],
            d_tags = [''memory'', ''legal_evidence'']\<rparr>]
   \<and> catalog_ok two_spec_catalog
   \<and> ''other.capability'' \<noteq> spec_name (fetch_spec ''new'')
   \<and> describe (snd (register two_spec_catalog (fetch_spec ''new'') True))
        = [\<lparr>d_name = ''memory.fetch_legal_evidence'', d_description = ''new'',
            d_inputs = [(''since'', ''ISO-8601 timestamp'')],
            d_outputs = [(''entries'', ''Serialized entries'')],
            d_tags = [''memory'', ''legal_evidence'']\<rparr>,
           \<lparr>d_name = ''other.capability'', d_description = ''Another capability.'',
            d_inputs = [], d_outputs = [], d_tags = [''other'']\<rparr>]"
  using register_duplicate_contract [of "[]" "fetch_spec ''old''"]
    register_duplicate_contract
      [of "[(''memory.fetch_legal_evidence'', fetch_spec ''old'')]" "fetch_spec ''new''"]
    register_duplicate_contract [of two_spec_catalog "fetch_spec ''new''"]
  by (simp add: fetch_spec_def catalog_ok_def register_def describe_def to_dict_def
      two_spec_catalog_def)

text \<open>
  C10. Constructing a FunctionSpec raises exactly when the name or the description is
  empty or whitespace only. On success the stored name is the given name stripped of
  leading and trailing whitespace and the other fields are stored as given. Hence two
  specs whose names are equal after stripping collide: once the first is in a catalog,
  registering the second without \<open>replace\<close> raises and leaves the catalog as it is.
\<close>

theorem FunctionSpec_init_contract:
  "((\<exists>err. FunctionSpec_init n d i out t = Inl err) \<longleftrightarrow> blank n \<or> blank d)
   \<and> (\<forall>s. FunctionSpec_init n d i out t = Inr s \<longrightarrow>
         s = \<lparr>spec_name = strip n, description = d, inputs = i, outputs = out, tags = t\<rparr>)
   \<and> (\<forall>s1 s2. FunctionSpec_init n d i out t = Inr s1
         \<and> FunctionSpec_init n' d' i' out' t' = Inr s2 \<and> strip n = strip n' \<longrightarrow>
         (\<exists>err. register (snd (register c s1 r)) s2 False = (Some err, snd (register c s1 r))))"
proof -
  have coll: "spec_name s1 = spec_name s2 \<Longrightarrow>
     \<exists>err. register (snd (register c s1 r)) s2 False = (Some err, snd (register c s1 r))" for s1 s2
    using register_present [of c s1 r] by (simp add: register_def)
  show ?thesis
    by (auto simp: FunctionSpec_init_def Let_def strip_Nil_blank intro!: coll split: if_splits)
qed

theorem FunctionSpec_init_contract_witness:
  "\<not> blank '' fetch '' \<and> \<not> blank ''d'' \<and> blank ''  ''
   \<and> FunctionSpec_init '' fetch '' ''d'' [] [] []
        = Inr \<lparr>spec_name = ''fetch'', description = ''d'', inputs = [], outputs = [], tags = []\<rparr>
   \<and> FunctionSpec_init ''fetch'' ''e'' [] [] []
        = Inr \<lparr>spec_name = ''fetch'', description = ''e'', inputs = [], outputs = [], tags = []\<rparr>
   \<and> (\<exists>err. FunctionSpec_init ''  '' ''d'' [] [] [] = Inl err)
   \<and> strip '' fetch '' = strip ''fetch''
   \<and> (\<exists>err. register
          (snd (register []
             \<lparr>spec_name = ''fetch'', description = ''d'', inputs = [], outputs = [], tags = []\<rparr> False))
          \<lparr>spec_name = ''fetch'', description = ''e'', inputs = [], outputs = [], tags = []\<rparr> False
        = (Some err,
           snd (register []
             \<lparr>spec_name = ''fetch'', description = ''d'', inputs = [], outputs = [], tags = []\<rparr> False)))"
  using FunctionSpec_init_contract [of "'' fetch ''" "''d''" "[]" "[]" "[]" "''fetch''" "''e''" "[]" "[]" "[]" "[]" False]
    FunctionSpec_init_contract [of "''  ''" "''d''" "[]" "[]" "[]" "''fetch''" "''e''" "[]" "[]" "[]" "[]" False]
  by (simp add: blank_def is_space_def whitespace_chars_def strip_def lstrip_def rstrip_def
      FunctionSpec_init_def register_def)

section \<open>Layer queries\<close>

lemma entries_since_aware:
  "utcoffset t \<noteq> None \<Longrightarrow> list_all (\<lambda>e. utcoffset (timestamp e) \<noteq> None) es \<Longrightarrow>
   entries_since es t = Inr (filter (\<lambda>e. datetime_ge (timestamp e) t = Inr True) es)"
  by (induction es) (auto simp: datetime_ge_def split: option.splits sum.splits)

text \<open>
  C4, as amended. \<open>query(since=None)\<close> returns what \<open>all()\<close> returns; \<open>query\<close> with a
  \<open>since\<close> that is not timezone-aware raises; and for a timezone-aware \<open>since\<close>, in a
  layer whose stored timestamps are all timezone-aware, \<open>query\<close> returns exactly the
  stored entries whose timestamp is \<open>>= since\<close>, in insertion order.
\<close>

theorem query_contract:
  "query l None = Inr (all l)
   \<and> (utcoffset t = None \<longrightarrow> (\<exists>err. query l (Some t) = Inl err))
   \<and> (utcoffset t \<noteq> None \<and> list_all (\<lambda>e. utcoffset (timestamp e) \<noteq> None) (entries l) \<longrightarrow>
        query l (Some t) = Inr (filter (\<lambda>e. datetime_ge (timestamp e) t = Inr True) (entries l)))"
  by (auto simp: query_def entries_since_aware utcoffset_def)

theorem query_contract_witness:
  "utcoffset (naive 2) = None
   \<and> (\<exists>err. query unsorted_layer (Some (naive 2)) = Inl err)
   \<and> utcoffset (aware 2) \<noteq> None
   \<and> list_all (\<lambda>e. utcoffset (timestamp e) \<noteq> None) (entries unsorted_layer)
   \<and> query unsorted_layer (Some (aware 2))
       = Inr [entry_at ''legal_evidence'' ''third'' (aware 3),
              entry_at ''legal_evidence'' ''second'' (aware 2)]"
  using query_contract [of unsorted_layer "naive 2"] query_contract [of unsorted_layer "aware 2"]
  by (simp add: unsorted_layer_def naive_def aware_def utc_def utcoffset_def entry_at_def
      datetime_ge_def same_tzinfo_def)

text \<open>
  C4 as stated fails on a layer that holds an entry with a naive timestamp: a
  timezone-aware \<open>since\<close> is then compared with it, and the comparison raises.
\<close>

theorem query_naive_entry_counterexample:
  "utcoffset (aware 0) \<noteq> None
   \<and> query naive_layer (Some (aware 0))
       = Inl (TypeError (''can'' @ apostrophe @ ''t compare offset-naive and offset-aware datetimes''))"
  by (simp add: naive_layer_def naive_def aware_def utc_def utcoffset_def entry_at_def
      datetime_ge_def same_tzinfo_def query_def)

section \<open>The bridge\<close>

lemma list_all_map_of: "list_all P al \<Longrightarrow> map_of al k = Some v \<Longrightarrow> P (k, v)"
  by (auto simp: list_all_iff dest: map_of_SomeD)

lemma list_all_update: "list_all P al \<Longrightarrow> P (k, v) \<Longrightarrow> list_all P (AList.update k v al)"
  by (induction al) auto

lemma register_layer_spec_eq:
  "register_layer_spec b n =
     (None, b\<lparr>catalog := AList.update (''memory.fetch_'' @ rstrip n) (layer_spec n) (catalog b)\<rparr>)"
  unfolding register_layer_spec_def FunctionSpec_init_def Let_def strip_fetch_name
  using strip_description [of "apostrophe @ n @ apostrophe @ '' memory layer.''"]
  by (simp add: register_def layer_spec_def)

lemma register_layer_blank:
  "strip n = [] \<Longrightarrow> register_layer b n = (Inl (ValueError ''Layer name cannot be empty.''), b)"
  by (simp add: register_layer_def)

lemma register_layer_existing:
  "strip n \<noteq> [] \<Longrightarrow> map_of (layers b) n = Some a \<Longrightarrow> register_layer b n = (Inr a, b)"
  by (simp add: register_layer_def)

lemma register_layer_new:
  "strip n \<noteq> [] \<Longrightarrow> map_of (layers b) n = None \<Longrightarrow>
   register_layer b n =
     (Inr (length (heap b)),
      b\<lparr>heap := heap b @ [MemoryLayer_init n],
        layers := AList.update n (length (heap b)) (layers b),
        catalog := AList.update (''memory.fetch_'' @ rstrip n) (layer_spec n) (catalog b)\<rparr>)"
  by (simp add: register_layer_def new_layer_def register_layer_spec_eq)

text \<open>
  A new bridge has its catalog in step with its layers, and \<open>register_layer\<close> keeps it so.
\<close>

lemma MemoryBridge_init_synced:
  "catalog_ok (catalog MemoryBridge_init) \<and> layers_synced MemoryBridge_init \<and> layers_ok MemoryBridge_init"
  by (simp add: MemoryBridge_init_def catalog_ok_def layers_synced_def layers_ok_def)

lemma register_layer_keeps_synced:
  assumes "catalog_ok (catalog b)" and "layers_synced b"
  shows "catalog_ok (catalog (snd (register_layer b n))) \<and> layers_synced (snd (register_layer b n))"
proof (cases "strip n = []")
  case True
  then show ?thesis using assms by (simp add: register_layer_blank)
next
  case ne: False
  show ?thesis
  proof (cases "map_of (layers b) n")
    case (Some a)
    then show ?thesis using assms ne by (simp add: register_layer_existing)
  next
    case None
    let ?k = "''memory.fetch_'' @ rstrip n"
    let ?c = "AList.update ?k (layer_spec n) (catalog b)"
    have "catalog_ok (AList.update (spec_name (layer_spec n)) (layer_spec n) (catalog b))"
      using assms(1) by (rule catalog_ok_update)
    then have 1: "catalog_ok ?c" by (simp add: layer_spec_def)
    have "list_all (\<lambda>p. map_of ?c (''memory.fetch_'' @ rstrip (fst p)) \<noteq> None) (layers b)"
      using assms(2) by (auto simp: layers_synced_def list_all_iff update_conv')
    then have 2: "list_all (\<lambda>p. map_of ?c (''memory.fetch_'' @ rstrip (fst p)) \<noteq> None)
        (AList.update n (length (heap b)) (layers b))"
      by (rule list_all_update) (simp add: update_conv')
    show ?thesis using ne None 1 2 by (simp add: register_layer_new layers_synced_def)
  qed
qed

text \<open>
  C5, as amended. On a bridge whose catalog is in step with its layers (a new bridge, or
  one whose layers all came from \<open>register_layer\<close>), \<open>register_layer\<close> raises for an
  empty or whitespace-only name and leaves the bridge unchanged. For any other name
  \<open>n\<close>, two calls return the same layer object, the one found under \<open>n\<close>, the second
  call changes nothing, and afterwards the catalog holds exactly one spec named
  \<open>memory.fetch_\<close> followed by \<open>n\<close> without its trailing whitespace; that is
  \<open>memory.fetch_{n}\<close> when \<open>n\<close> does not end in whitespace.
\<close>

theorem register_layer_contract:
  assumes "catalog_ok (catalog b)" and "layers_synced b"
  shows "(blank n \<longrightarrow> (\<exists>err. register_layer b n = (Inl err, b)))
    \<and> (\<not> blank n \<longrightarrow>
         (\<exists>a b'. register_layer b n = (Inr a, b') \<and> register_layer b' n = (Inr a, b')
            \<and> map_of (layers b') n = Some a
            \<and> length (specs_named (catalog b') (''memory.fetch_'' @ rstrip n)) = 1
            \<and> (\<not> is_space (last n) \<longrightarrow>
                 length (specs_named (catalog b') (''memory.fetch_'' @ n)) = 1)))"
proof (cases "blank n")
  case True
  then show ?thesis by (simp add: register_layer_blank strip_Nil_blank)
next
  case False
  then have ne: "strip n \<noteq> []" by (simp add: strip_Nil_blank)
  have "n \<noteq> []" using False by (simp add: blank_def)
  then have same: "\<not> is_space (last n) \<Longrightarrow> rstrip n = n"
    by (rule rstrip_no_trailing_space)
  show ?thesis
  proof (cases "map_of (layers b) n")
    case None
    let ?a = "length (heap b)"
    let ?b = "b\<lparr>heap := heap b @ [MemoryLayer_init n],
        layers := AList.update n (length (heap b)) (layers b),
        catalog := AList.update (''memory.fetch_'' @ rstrip n) (layer_spec n) (catalog b)\<rparr>"
    have 1: "register_layer b n = (Inr ?a, ?b)" using ne None by (rule register_layer_new)
    have 2: "map_of (layers ?b) n = Some ?a" by (simp add: update_conv')
    have 3: "register_layer ?b n = (Inr ?a, ?b)" using ne 2 by (rule register_layer_existing)
    have "specs_named (catalog ?b) (spec_name (layer_spec n)) = [layer_spec n]"
      using specs_named_update [OF assms(1), of "layer_spec n"] by (simp add: layer_spec_def)
    then have 4: "length (specs_named (catalog ?b) (''memory.fetch_'' @ rstrip n)) = 1"
      by (simp add: layer_spec_def)
    then have 5: "\<not> is_space (last n) \<longrightarrow> length (specs_named (catalog ?b) (''memory.fetch_'' @ n)) = 1"
      using same by auto
    show ?thesis using False 1 2 3 4 5 by blast
  next
    case (Some a)
    have 1: "register_layer b n = (Inr a, b)" using ne Some by (rule register_layer_existing)
    have "map_of (catalog b) (''memory.fetch_'' @ rstrip n) \<noteq> None"
      using list_all_map_of [OF assms(2) [unfolded layers_synced_def] Some] by simp
    then obtain s where "map_of (catalog b) (''memory.fetch_'' @ rstrip n) = Some s" by blast
    with assms(1) have 4: "specs_named (catalog b) (''memory.fetch_'' @ rstrip n) = [s]"
      by (rule specs_named_present)
    then have 5: "\<not> is_space (last n) \<longrightarrow> length (specs_named (catalog b) (''memory.fetch_'' @ n)) = 1"
      using same by auto
    show ?thesis using False 1 Some 4 5 by simp
  qed
qed

theorem register_layer_contract_witness:
  "catalog_ok (catalog MemoryBridge_init) \<and> layers_synced MemoryBridge_init
   \<and> blank ''  '' \<and> (\<exists>err. register_layer MemoryBridge_init ''  '' = (Inl err, MemoryBridge_init))
   \<and> \<not> blank ''legal_evidence'' \<and> \<not> is_space (last ''legal_evidence'')
   \<and> (\<exists>a b'. register_layer MemoryBridge_init ''legal_evidence'' = (Inr a, b')
          \<and> register_layer b' ''legal_evidence'' = (Inr a, b')
          \<and> map_of (layers b') ''legal_evidence'' = Some a
          \<and> length (specs_named (catalog b') ''memory.fetch_legal_evidence'') = 1)"
proof -
  have h: "catalog_ok (catalog MemoryBridge_init)" "layers_synced MemoryBridge_init"
    using MemoryBridge_init_synced by simp_all
  have b: "blank ''  ''" "\<not> blank ''legal_evidence''" "\<not> is_space (last ''legal_evidence'')"
    by (simp_all add: blank_def is_space_def whitespace_chars_def)
  show ?thesis
    using h b register_layer_contract [OF h, of "''  ''"]
      register_layer_contract [OF h, of "''legal_evidence''"]
    by auto
qed

text \<open>
  C5 as stated fails for a name that ends in whitespace: the layer \<open>a \<close> is
  registered, but its spec is stored under the stripped name \<open>memory.fetch_a\<close>, so no
  spec is named \<open>memory.fetch_a \<close>.
\<close>

theorem register_layer_trailing_space_counterexample:
  "\<not> blank ''a ''
   \<and> fst (register_layer (snd (register_layer MemoryBridge_init ''a '')) ''a '') = Inr 0
   \<and> specs_named (catalog (snd (register_layer (snd (register_layer MemoryBridge_init ''a '')) ''a '')))
        (''memory.fetch_'' @ ''a '') = []
   \<and> map fst (catalog (snd (register_layer (snd (register_layer MemoryBridge_init ''a '')) ''a '')))
        = [''memory.fetch_a'']"
  by (simp add: blank_def is_space_def whitespace_chars_def register_layer_def strip_def lstrip_def
      rstrip_def MemoryBridge_init_def new_layer_def register_layer_spec_eq specs_named_def
      layer_spec_def)

section \<open>The fusion loop\<close>

lemma deliver_keeps:
  "layers (deliver b e origin ns) = layers b \<and> catalog (deliver b e origin ns) = catalog b"
  by (induction ns arbitrary: b) (simp_all add: apply_update_def)

lemma broadcast_keeps:
  "layers (broadcast b e origin) = layers b \<and> catalog (broadcast b e origin) = catalog b"
  by (simp add: broadcast_def Let_def deliver_keeps)

lemma cycle_entries_keeps:
  "list_all (\<lambda>e. map_of (layers b) (layer e) \<noteq> None) es \<Longrightarrow>
   layers (snd (cycle_entries b origin es)) = layers b
   \<and> catalog (snd (cycle_entries b origin es)) = catalog b"
proof (induction es arbitrary: b)
  case Nil
  then show ?case by simp
next
  case (Cons e es)
  then obtain a where a: "map_of (layers b) (layer e) = Some a" by auto
  let ?b1 = "b\<lparr>heap := heap b @ [MemoryLayer_init (layer e)]\<rparr>"
  have sd: "setdefault_layer b (layer e) = (a, ?b1)"
    using a by (simp add: setdefault_layer_def new_layer_def)
  show ?case
  proof (cases "layer_add ?b1 a e")
    case (Pair r b2)
    then have k2: "layers b2 = layers b" "catalog b2 = catalog b"
      by (auto simp: layer_add_def split: sum.splits)
    show ?thesis
    proof (cases r)
      case (Some err)
      then show ?thesis using sd Pair k2 by simp
    next
      case None
      let ?b3 = "broadcast b2 e (Some origin)"
      have k3: "layers ?b3 = layers b" "catalog ?b3 = catalog b"
        using k2 by (simp_all add: broadcast_keeps)
      have "list_all (\<lambda>e. map_of (layers ?b3) (layer e) \<noteq> None) es"
        using Cons.prems k3 by simp
      then have "layers (snd (cycle_entries ?b3 origin es)) = layers ?b3
          \<and> catalog (snd (cycle_entries ?b3 origin es)) = catalog ?b3"
        by (rule Cons.IH)
      then show ?thesis using sd Pair None k3 by simp
    qed
  qed
qed

lemma cycle_keeps:
  "names_known_layers b nodes \<Longrightarrow>
   layers (snd (cycle b nodes)) = layers b \<and> catalog (snd (cycle b nodes)) = catalog b"
proof (induction nodes arbitrary: b)
  case Nil
  then show ?case by simp
next
  case (Cons node nodes)
  have first: "list_all (\<lambda>e. map_of (layers b) (layer e) \<noteq> None) (node_updates node)"
    using Cons.prems by (simp add: names_known_layers_def)
  show ?case
  proof (cases "cycle_entries b (node_id node) (node_updates node)")
    case (Pair r b1)
    then have k1: "layers b1 = layers b" "catalog b1 = catalog b"
      using cycle_entries_keeps [OF first, of "node_id node"] by simp_all
    show ?thesis
    proof (cases r)
      case (Some err)
      then show ?thesis using Pair k1 by simp
    next
      case None
      have "names_known_layers b1 nodes"
        using Cons.prems k1 by (simp add: names_known_layers_def)
      then have "layers (snd (cycle b1 nodes)) = layers b1 \<and> catalog (snd (cycle b1 nodes)) = catalog b1"
        by (rule Cons.IH)
      then show ?thesis using Pair None k1 by simp
    qed
  qed
qed

lemma bridge_step_synced:
  assumes "catalog_ok (catalog b)" and "layers_synced b"
    and "case c of Sync nodes \<Rightarrow> names_known_layers b nodes | _ \<Rightarrow> True"
  shows "catalog_ok (catalog (bridge_step b c)) \<and> layers_synced (bridge_step b c)"
proof (cases c)
  case (RegisterLayer n)
  then show ?thesis using register_layer_keeps_synced [OF assms(1,2), of n] by simp
next
  case (RegisterNode node)
  then show ?thesis
    using assms(1,2) by (simp add: register_node_def witness_register_def layers_synced_def)
next
  case (Sync nodes)
  then have "names_known_layers b nodes" using assms(3) by simp
  then show ?thesis
    using Sync assms(1,2) cycle_keeps [of b nodes] by (simp add: sync_def layers_synced_def)
qed

lemma run_calls_synced:
  "catalog_ok (catalog b) \<Longrightarrow> layers_synced b \<Longrightarrow> syncs_known_layers b cs \<Longrightarrow>
   catalog_ok (catalog (run_calls b cs)) \<and> layers_synced (run_calls b cs)"
proof (induction cs arbitrary: b)
  case Nil
  then show ?case by simp
next
  case (Cons c cs)
  have "catalog_ok (catalog (bridge_step b c)) \<and> layers_synced (bridge_step b c)"
    using Cons.prems by (intro bridge_step_synced) simp_all
  then show ?case using Cons.prems(3) Cons.IH [of "bridge_step b c"] by simp
qed

text \<open>
  What the other paths keep: in every bridge state that a history of \<open>register_layer\<close>,
  \<open>register_node\<close> and \<open>sync\<close> calls builds from a new bridge, when the updates of every
  \<open>sync\<close> name layers the bridge already has, every layer name of the layer dictionary
  has a catalog spec, stored under and named \<open>memory.fetch_\<close> followed by the layer name
  without its trailing whitespace.
\<close>

lemma registered_layers_have_specs:
  assumes "syncs_known_layers MemoryBridge_init cs"
    and "map_of (layers (run_calls MemoryBridge_init cs)) k = Some a"
  shows "\<exists>s. map_of (catalog (run_calls MemoryBridge_init cs)) (''memory.fetch_'' @ rstrip k) = Some s
     \<and> spec_name s = ''memory.fetch_'' @ rstrip k
     \<and> (k = [] \<or> \<not> is_space (last k) \<longrightarrow>
          map_of (catalog (run_calls MemoryBridge_init cs)) (''memory.fetch_'' @ k) = Some s)"
proof -
  let ?b = "run_calls MemoryBridge_init cs"
  have ok: "catalog_ok (catalog ?b)" and sy: "layers_synced ?b"
    using run_calls_synced [OF _ _ assms(1)] MemoryBridge_init_synced by simp_all
  have "map_of (catalog ?b) (''memory.fetch_'' @ rstrip k) \<noteq> None"
    using list_all_map_of [OF sy [unfolded layers_synced_def] assms(2)] by simp
  then obtain s where s: "map_of (catalog ?b) (''memory.fetch_'' @ rstrip k) = Some s" by blast
  have "list_all (\<lambda>p. spec_name (snd p) = fst p) (catalog ?b)"
    using ok by (simp add: catalog_ok_def)
  then have n: "spec_name s = ''memory.fetch_'' @ rstrip k"
    using list_all_map_of [OF _ s, of "\<lambda>p. spec_name (snd p) = fst p"] by simp
  have "rstrip k = k" if c: "k = [] \<or> \<not> is_space (last k)"
  proof (cases "k = []")
    case True
    then show ?thesis by (simp add: rstrip_def)
  next
    case False
    then show ?thesis using c by (simp add: rstrip_no_trailing_space)
  qed
  then show ?thesis using s n by auto
qed

lemma registered_layers_have_specs_example:
  "syncs_known_layers MemoryBridge_init registered_then_synced
   \<and> map_of (layers (run_calls MemoryBridge_init registered_then_synced)) ''legal_evidence'' = Some 0
   \<and> stored (run_calls MemoryBridge_init registered_then_synced) ''legal_evidence''
       = [entry_at ''legal_evidence'' ''doc1'' (aware 1), entry_at ''legal_evidence'' ''doc2'' (aware 2)]
   \<and> (\<exists>s. map_of (catalog (run_calls MemoryBridge_init registered_then_synced))
             ''memory.fetch_legal_evidence'' = Some s
         \<and> spec_name s = ''memory.fetch_legal_evidence'')"
proof -
  let ?b = "snd (register_layer (register_node MemoryBridge_init node_A) ''legal_evidence'')"
  have l: "layers ?b = [(''legal_evidence'', 0)]"
    by (simp add: register_layer_def strip_def lstrip_def rstrip_def is_space_def
        whitespace_chars_def register_node_def witness_register_def MemoryBridge_init_def
        new_layer_def register_layer_spec_eq)
  have kn: "names_known_layers ?b [node_A]"
    unfolding names_known_layers_def l by (simp add: node_A_def entry_at_def)
  then have h: "syncs_known_layers MemoryBridge_init registered_then_synced"
    by (simp add: registered_then_synced_def)
  have "layers (run_calls MemoryBridge_init registered_then_synced) = [(''legal_evidence'', 0)]"
    using cycle_keeps [OF kn] l by (simp add: registered_then_synced_def sync_def)
  then have m: "map_of (layers (run_calls MemoryBridge_init registered_then_synced)) ''legal_evidence''
      = Some 0"
    by simp
  have st: "stored (run_calls MemoryBridge_init registered_then_synced) ''legal_evidence''
       = [entry_at ''legal_evidence'' ''doc1'' (aware 1), entry_at ''legal_evidence'' ''doc2'' (aware 2)]"
    by (simp add: registered_then_synced_def sync_def register_layer_def strip_def lstrip_def
        rstrip_def is_space_def whitespace_chars_def register_node_def witness_register_def
        MemoryBridge_init_def new_layer_def register_layer_spec_eq node_A_def entry_at_def
        setdefault_layer_def layer_add_def add_def MemoryLayer_init_def broadcast_def
        apply_update_def stored_def layer_entries_def all_def)
  have "\<exists>s. map_of (catalog (run_calls MemoryBridge_init registered_then_synced))
             ''memory.fetch_legal_evidence'' = Some s
         \<and> spec_name s = ''memory.fetch_legal_evidence''"
    using registered_layers_have_specs [OF h m]
    by (auto simp: rstrip_def is_space_def whitespace_chars_def)
  then show ?thesis using h m st by (intro conjI)
qed

text \<open>
  C2. The claim asks that every layer name of the bridge's layer dictionary has its
  catalog spec \<open>memory.fetch_{name}\<close>, also when the layer was created by the fusion
  loop. On a new bridge, one \<open>sync\<close> with a node whose update names the layer \<open>x\<close>
  completes, creates that layer and stores the entry in it, and leaves the catalog empty:
  \<open>cycle\<close> stores the new layer with \<open>setdefault\<close> and never calls
  \<open>_register_layer_spec\<close>. \<open>register_layer\<close> on the same name does register the spec
  \<open>memory.fetch_x\<close>, and after the \<open>sync\<close> it finds the layer and registers nothing.
\<close>

theorem sync_creates_layer_without_spec:
  "fst (sync MemoryBridge_init [node_X]) = None
   \<and> map fst (layers (snd (sync MemoryBridge_init [node_X]))) = [''x'']
   \<and> stored (snd (sync MemoryBridge_init [node_X])) ''x'' = [entry_at ''x'' ''doc'' (aware 1)]
   \<and> catalog (snd (sync MemoryBridge_init [node_X])) = []
   \<and> map_of (catalog (snd (sync MemoryBridge_init [node_X]))) ''memory.fetch_x'' = None
   \<and> describe_functions (snd (sync MemoryBridge_init [node_X])) = []
   \<and> map fst (layers (snd (register_layer MemoryBridge_init ''x''))) = [''x'']
   \<and> map fst (catalog (snd (register_layer MemoryBridge_init ''x''))) = [''memory.fetch_x'']
   \<and> fst (register_layer (snd (sync MemoryBridge_init [node_X])) ''x'') = Inr 0
   \<and> catalog (snd (register_layer (snd (sync MemoryBridge_init [node_X])) ''x'')) = []"
  by (simp add: sync_def node_X_def MemoryBridge_init_def setdefault_layer_def new_layer_def
      layer_add_def add_def MemoryLayer_init_def broadcast_def entry_at_def stored_def
      layer_entries_def all_def register_layer_def strip_def lstrip_def rstrip_def is_space_def
      whitespace_chars_def register_layer_spec_eq describe_functions_def describe_def
      layer_spec_def)

text \<open>
  C3. Nodes \<open>A\<close> and \<open>B\<close> are two different nodes, both registered (once each, in either
  order) with a witness network whose log is empty, and neither has received anything;
  the layer that \<open>e1\<close> and \<open>e2\<close> name does not exist yet. When \<open>A.fetch_updates()\<close>
  returns \<open>[e1, e2]\<close> and \<open>B.fetch_updates()\<close> returns \<open>[]\<close>, \<open>cycle([A, B])\<close> completes,
  the layer holds \<open>[e1, e2]\<close>, \<open>A\<close> has received nothing, \<open>B\<close> has received \<open>[e1, e2]\<close> and
  the witness log is \<open>[e1, e2]\<close>.
\<close>

theorem fusion_cycle_property:
  assumes "node_id A \<noteq> node_id B" and "layer e1 = layer e2"
    and "node_updates A = [e1, e2]" and "node_updates B = []"
    and "subscribers (witnesses b) = [node_id A, node_id B]
         \<or> subscribers (witnesses b) = [node_id B, node_id A]"
    and "log (witnesses b) = []" and "inbound b (node_id A) = []" and "inbound b (node_id B) = []"
    and "map_of (layers b) (layer e1) = None"
  shows "\<exists>b'. cycle b [A, B] = (None, b')
     \<and> layer_entries b' (layer e1) = Some [e1, e2]
     \<and> inbound b' (node_id A) = []
     \<and> inbound b' (node_id B) = [e1, e2]
     \<and> log (witnesses b') = [e1, e2]"
  using assms
  by (auto simp add: setdefault_layer_def update_conv' new_layer_def layer_add_def add_def
      MemoryLayer_init_def broadcast_def apply_update_def layer_entries_def all_def Let_def)

theorem fusion_cycle_property_witness:
  "node_id node_A \<noteq> node_id node_B
   \<and> subscribers (witnesses two_node_bridge) = [node_id node_A, node_id node_B]
   \<and> map_of (layers two_node_bridge) ''legal_evidence'' = None
   \<and> (\<exists>b'. cycle two_node_bridge [node_A, node_B] = (None, b')
     \<and> layer_entries b' ''legal_evidence''
          = Some [entry_at ''legal_evidence'' ''doc1'' (aware 1), entry_at ''legal_evidence'' ''doc2'' (aware 2)]
     \<and> inbound b' 1 = []
     \<and> inbound b' 2 = [entry_at ''legal_evidence'' ''doc1'' (aware 1), entry_at ''legal_evidence'' ''doc2'' (aware 2)]
     \<and> log (witnesses b')
          = [entry_at ''legal_evidence'' ''doc1'' (aware 1), entry_at ''legal_evidence'' ''doc2'' (aware 2)])"
proof -
  have h: "node_id node_A \<noteq> node_id node_B"
    "layer (entry_at ''legal_evidence'' ''doc1'' (aware 1)) = layer (entry_at ''legal_evidence'' ''doc2'' (aware 2))"
    "node_updates node_A = [entry_at ''legal_evidence'' ''doc1'' (aware 1), entry_at ''legal_evidence'' ''doc2'' (aware 2)]"
    "node_updates node_B = []"
    "subscribers (witnesses two_node_bridge) = [node_id node_A, node_id node_B]
       \<or> subscribers (witnesses two_node_bridge) = [node_id node_B, node_id node_A]"
    "log (witnesses two_node_bridge) = []"
    "inbound two_node_bridge (node_id node_A) = []"
    "inbound two_node_bridge (node_id node_B) = []"
    "map_of (layers two_node_bridge) (layer (entry_at ''legal_evidence'' ''doc1'' (aware 1))) = None"
    by (simp_all add: node_A_def node_B_def two_node_bridge_def register_node_def
        witness_register_def MemoryBridge_init_def entry_at_def)
  have s: "subscribers (witnesses two_node_bridge) = [node_id node_A, node_id node_B]"
    by (simp add: node_A_def node_B_def two_node_bridge_def register_node_def
        witness_register_def MemoryBridge_init_def)
  have l: "layer (entry_at ''legal_evidence'' ''doc1'' (aware 1)) = ''legal_evidence''"
    and i: "node_id node_A = 1" "node_id node_B = 2"
    by (simp_all add: entry_at_def node_A_def node_B_def)
  show ?thesis
    using h(1) s h(9) fusion_cycle_property [OF h] unfolding l i by simp
qed

section \<open>The operator\<close>

subsection \<open>What a run leaves alone\<close>

lemma register_layer_frame:
  "witnesses (snd (register_layer b n)) = witnesses b \<and> inbound (snd (register_layer b n)) = inbound b"
  by (cases "strip n = []"; cases "map_of (layers b) n")
     (simp_all add: register_layer_blank register_layer_existing register_layer_new)

lemma layer_add_frame:
  "witnesses (snd (layer_add b a e)) = witnesses b \<and> inbound (snd (layer_add b a e)) = inbound b"
  by (simp add: layer_add_def split: sum.splits)

lemma ingest_frame:
  "witnesses (snd (ingest b es counts al)) = witnesses b
   \<and> inbound (snd (ingest b es counts al)) = inbound b"
proof (induction es arbitrary: b counts al)
  case Nil
  then show ?case by simp
next
  case (Cons e es)
  show ?case
  proof (cases "register_layer b (layer e)")
    case reg: (Pair r b1)
    then have w1: "witnesses b1 = witnesses b" "inbound b1 = inbound b"
      using register_layer_frame [of b "layer e"] by simp_all
    show ?thesis
    proof (cases r)
      case (Inl err)
      then show ?thesis using reg w1 by simp
    next
      case (Inr a)
      show ?thesis
      proof (cases "layer_add b1 a e")
        case (Pair r2 b2)
        then have w2: "witnesses b2 = witnesses b1" "inbound b2 = inbound b1"
          using layer_add_frame [of b1 a e] by simp_all
        show ?thesis
          using reg Inr Pair w1 w2 Cons.IH [of b2] by (cases r2) simp_all
      qed
    qed
  qed
qed

lemma run_connectors_frame:
  "witnesses (snd (run_connectors b cs audits)) = witnesses b
   \<and> inbound (snd (run_connectors b cs audits)) = inbound b"
proof (induction cs arbitrary: b audits)
  case Nil
  then show ?case by simp
next
  case (Cons c cs)
  show ?case
  proof (cases "gather c")
    case (Inl err)
    then show ?thesis by simp
  next
    case (Inr es)
    show ?thesis
    proof (cases "ingest b es [] []")
      case (Pair r b1)
      then have "witnesses b1 = witnesses b" "inbound b1 = inbound b"
        using ingest_frame [of b es "[]" "[]"] by simp_all
      then show ?thesis using Inr Pair Cons.IH [of b1] by (cases r) (auto split: prod.splits)
    qed
  qed
qed

text \<open>
  C8. Whatever the bridge and the connectors, and whether \<open>run_cycle\<close> returns a report
  or raises, the witness log and the subscriber list of the bridge are afterwards what
  they were before, and no node has been delivered anything.
\<close>

theorem run_cycle_frame:
  "log (witnesses (bridge (snd (run_cycle op now)))) = log (witnesses (bridge op))
   \<and> subscribers (witnesses (bridge (snd (run_cycle op now)))) = subscribers (witnesses (bridge op))
   \<and> inbound (bridge (snd (run_cycle op now))) = inbound (bridge op)"
proof -
  have "witnesses (bridge (snd (run_cycle op now))) = witnesses (bridge op)
      \<and> inbound (bridge (snd (run_cycle op now))) = inbound (bridge op)"
    using run_connectors_frame [of "bridge op" "map snd (registered op)" "[]"]
    by (cases "run_connectors (bridge op) (map snd (registered op)) []")
       (auto simp: run_cycle_def split: sum.splits)
  then show ?thesis by simp
qed

theorem run_cycle_frame_witness:
  "log (witnesses (bridge (snd (run_cycle (alert_operator\<lparr>bridge := two_node_bridge\<rparr>) (aware 5))))) = []
   \<and> subscribers (witnesses (bridge (snd (run_cycle (alert_operator\<lparr>bridge := two_node_bridge\<rparr>) (aware 5)))))
       = [1, 2]"
  using run_cycle_frame [of "alert_operator\<lparr>bridge := two_node_bridge\<rparr>" "aware 5"]
  by (simp add: two_node_bridge_def register_node_def witness_register_def MemoryBridge_init_def
      node_A_def node_B_def)

subsection \<open>What a run stores and reports\<close>

lemma layers_okD:
  "layers_ok b \<Longrightarrow> map_of (layers b) k = Some a \<Longrightarrow>
   a < length (heap b) \<and> layer_name (heap b ! a) = k"
  using list_all_map_of
    [of "\<lambda>p. snd p < length (heap b) \<and> layer_name (heap b ! snd p) = fst p" "layers b" k a]
  by (simp add: layers_ok_def)

lemma register_layer_ok:
  assumes "layers_ok b" and "strip n \<noteq> []"
  shows "\<exists>a b1. register_layer b n = (Inr a, b1) \<and> layers_ok b1 \<and> map_of (layers b1) n = Some a
           \<and> (\<forall>k. stored b1 k = stored b k)
           \<and> (\<forall>k. map_of (layers b) k \<noteq> None \<longrightarrow> map_of (layers b1) k \<noteq> None)"
proof (cases "map_of (layers b) n")
  case (Some a)
  then show ?thesis using assms by (simp add: register_layer_existing)
next
  case None
  let ?a = "length (heap b)"
  let ?b = "b\<lparr>heap := heap b @ [MemoryLayer_init n],
        layers := AList.update n (length (heap b)) (layers b),
        catalog := AList.update (''memory.fetch_'' @ rstrip n) (layer_spec n) (catalog b)\<rparr>"
  have 1: "register_layer b n = (Inr ?a, ?b)" using assms(2) None by (rule register_layer_new)
  have "list_all (\<lambda>p. snd p < length (heap ?b) \<and> layer_name (heap ?b ! snd p) = fst p) (layers b)"
    using assms(1) by (auto simp: layers_ok_def list_all_iff nth_append)
  then have 2: "layers_ok ?b"
    unfolding layers_ok_def by (simp add: list_all_update MemoryLayer_init_def)
  have 3: "map_of (layers ?b) n = Some ?a" by (simp add: update_conv')
  have 4: "stored ?b k = stored b k" for k
  proof (cases "k = n")
    case True
    then show ?thesis using None
      by (simp add: stored_def layer_entries_def update_conv' all_def MemoryLayer_init_def)
  next
    case False
    show ?thesis
    proof (cases "map_of (layers b) k")
      case None
      then show ?thesis using False by (simp add: stored_def layer_entries_def update_conv')
    next
      case (Some a)
      then have "a < length (heap b)" using layers_okD [OF assms(1)] by blast
      then show ?thesis using False Some
        by (simp add: stored_def layer_entries_def update_conv' nth_append)
    qed
  qed
  have 5: "map_of (layers b) k \<noteq> None \<longrightarrow> map_of (layers ?b) k \<noteq> None" for k
    by (simp add: update_conv')
  show ?thesis using 1 2 3 4 5 by blast
qed

lemma layer_add_ok:
  assumes "layers_ok b" and "map_of (layers b) (layer e) = Some a"
  shows "\<exists>b2. layer_add b a e = (None, b2) \<and> layers_ok b2
           \<and> (\<forall>k. stored b2 k = stored b k @ (if k = layer e then [e] else []))
           \<and> (\<forall>k. map_of (layers b) k \<noteq> None \<longrightarrow> map_of (layers b2) k \<noteq> None)"
proof -
  have a: "a < length (heap b)" and nm: "layer_name (heap b ! a) = layer e"
    using layers_okD [OF assms] by simp_all
  let ?l = "(heap b ! a)\<lparr>entries := entries (heap b ! a) @ [e]\<rparr>"
  let ?b = "b\<lparr>heap := (heap b)[a := ?l]\<rparr>"
  have 1: "layer_add b a e = (None, ?b)" using nm by (simp add: layer_add_def add_def)
  have 2: "layers_ok ?b"
    using assms(1) a by (auto simp: layers_ok_def list_all_iff nth_list_update)
  have 3: "stored ?b k = stored b k @ (if k = layer e then [e] else [])" for k
  proof (cases "map_of (layers b) k")
    case None
    then show ?thesis using assms(2) by (auto simp: stored_def layer_entries_def)
  next
    case (Some a')
    then have a': "a' < length (heap b)" and nm': "layer_name (heap b ! a') = k"
      using layers_okD [OF assms(1)] by blast+
    show ?thesis
    proof (cases "k = layer e")
      case True
      then have "a' = a" using Some assms(2) by simp
      then show ?thesis using True Some a
        by (simp add: stored_def layer_entries_def all_def)
    next
      case False
      then have "a' \<noteq> a" using nm nm' by auto
      then show ?thesis using False Some
        by (simp add: stored_def layer_entries_def all_def)
    qed
  qed
  show ?thesis using 1 2 3 by simp
qed

lemma get_count_update:
  "get_count (AList.update k v d) k' = (if k' = k then v else get_count d k')"
  by (simp add: get_count_def update_conv')

lemma ingest_ok:
  assumes "layers_ok b" and "list_all (\<lambda>e. \<not> blank (layer e)) es"
  shows "\<exists>counts' b'. ingest b es counts al = (Inr (counts', al @ map content (filter is_alert es)), b')
     \<and> layers_ok b'
     \<and> (\<forall>k. get_count counts' k = get_count counts k + int (length (on_layer k es)))
     \<and> (\<forall>k. stored b' k = stored b k @ on_layer k es)
     \<and> (\<forall>k. map_of (layers b) k \<noteq> None \<or> on_layer k es \<noteq> [] \<longrightarrow> map_of (layers b') k \<noteq> None)"
  using assms
proof (induction es arbitrary: b counts al)
  case Nil
  then show ?case by (simp add: on_layer_def)
next
  case (Cons e es)
  have ne: "strip (layer e) \<noteq> []" using Cons.prems(2) by (simp add: strip_Nil_blank)
  obtain a b1 where r: "register_layer b (layer e) = (Inr a, b1)" and ok1: "layers_ok b1"
    and a: "map_of (layers b1) (layer e) = Some a" and st1: "\<And>k. stored b1 k = stored b k"
    and keep1: "\<And>k. map_of (layers b) k \<noteq> None \<Longrightarrow> map_of (layers b1) k \<noteq> None"
    using register_layer_ok [OF Cons.prems(1) ne] by blast
  obtain b2 where ad: "layer_add b1 a e = (None, b2)" and ok2: "layers_ok b2"
    and st2: "\<And>k. stored b2 k = stored b1 k @ (if k = layer e then [e] else [])"
    and keep2: "\<And>k. map_of (layers b1) k \<noteq> None \<Longrightarrow> map_of (layers b2) k \<noteq> None"
    using layer_add_ok [OF ok1 a] by blast
  let ?counts = "AList.update (layer e) (get_count counts (layer e) + 1) counts"
  let ?al = "if layer e = ''ingestion_alerts'' then al @ [content e] else al"
  have rest: "list_all (\<lambda>e. \<not> blank (layer e)) es" using Cons.prems(2) by simp
  obtain counts' b' where
    ing: "ingest b2 es ?counts ?al = (Inr (counts', ?al @ map content (filter is_alert es)), b')"
    and ok': "layers_ok b'"
    and cnt: "\<And>k. get_count counts' k = get_count ?counts k + int (length (on_layer k es))"
    and st': "\<And>k. stored b' k = stored b2 k @ on_layer k es"
    and keep': "\<And>k. map_of (layers b2) k \<noteq> None \<or> on_layer k es \<noteq> [] \<Longrightarrow> map_of (layers b') k \<noteq> None"
    using Cons.IH [OF ok2 rest, of ?counts ?al] by blast
  have 1: "ingest b (e # es) counts al = (Inr (counts', al @ map content (filter is_alert (e # es))), b')"
    using r ad ing by (simp add: is_alert_def)
  have 2: "get_count counts' k = get_count counts k + int (length (on_layer k (e # es)))" for k
    using cnt [of k] by (simp add: get_count_update on_layer_def)
  have 3: "stored b' k = stored b k @ on_layer k (e # es)" for k
    using st' [of k] st2 [of k] st1 [of k] by (simp add: on_layer_def)
  have 4: "map_of (layers b) k \<noteq> None \<or> on_layer k (e # es) \<noteq> [] \<Longrightarrow> map_of (layers b') k \<noteq> None" for k
  proof (cases "k = layer e")
    case True
    then have "map_of (layers b2) k \<noteq> None" using a keep2 [of k] by simp
    then show ?thesis using keep' [of k] by simp
  next
    case False
    assume "map_of (layers b) k \<noteq> None \<or> on_layer k (e # es) \<noteq> []"
    then have "map_of (layers b) k \<noteq> None \<or> on_layer k es \<noteq> []"
      using False by (simp add: on_layer_def)
    then show ?thesis using keep1 [of k] keep2 [of k] keep' [of k] by blast
  qed
  show ?case using 1 ok' 2 3 4 by blast
qed

text \<open>A run that returns met no exception: no blank layer name, no failing \<open>gather()\<close>.\<close>

lemma ingest_returns:
  "ingest b es counts al = (Inr x, b') \<Longrightarrow> list_all (\<lambda>e. \<not> blank (layer e)) es"
proof (induction es arbitrary: b counts al)
  case Nil
  then show ?case by simp
next
  case (Cons e es)
  have nb: "\<not> blank (layer e)"
  proof
    assume "blank (layer e)"
    then have "register_layer b (layer e) = (Inl (ValueError ''Layer name cannot be empty.''), b)"
      by (simp add: register_layer_blank strip_Nil_blank)
    then show False using Cons.prems by simp
  qed
  have "list_all (\<lambda>e. \<not> blank (layer e)) es"
    using Cons.prems Cons.IH
    by (auto split: prod.splits sum.splits option.splits)
  then show ?case using nb by simp
qed

lemma run_connectors_returns:
  "run_connectors b cs audits = (Inr x, b') \<Longrightarrow> list_all gathers_cleanly cs"
proof (induction cs arbitrary: b audits)
  case Nil
  then show ?case by simp
next
  case (Cons c cs)
  then obtain es where g: "gather c = Inr es" by (cases "gather c") simp_all
  obtain r b1 where i: "ingest b es [] [] = (r, b1)" by (cases "ingest b es [] []")
  then obtain counts al where r: "r = Inr (counts, al)"
    using Cons.prems g by (cases r) auto
  have "list_all (\<lambda>e. \<not> blank (layer e)) es" using i r by (auto intro: ingest_returns)
  then have 1: "gathers_cleanly c" using g by (simp add: gathers_cleanly_def)
  have 2: "list_all gathers_cleanly cs" using Cons.prems g i r Cons.IH by auto
  show ?case using 1 2 by simp
qed

lemma run_connectors_ok:
  assumes "layers_ok b" and "list_all gathers_cleanly cs"
  shows "\<exists>new b'. run_connectors b cs audits = (Inr (audits @ new), b')
     \<and> layers_ok b'
     \<and> list_all2 (\<lambda>c a. audit_name a = connector_name c
            \<and> produced a = int (length (gathered c))
            \<and> alerts a = map content (filter is_alert (gathered c))
            \<and> (\<forall>k. get_count (layer_counts a) k = int (length (on_layer k (gathered c))))) cs new
     \<and> (\<forall>k. stored b' k = stored b k @ on_layer k (concat (map gathered cs)))
     \<and> (\<forall>k. map_of (layers b) k \<noteq> None \<or> on_layer k (concat (map gathered cs)) \<noteq> []
            \<longrightarrow> map_of (layers b') k \<noteq> None)"
  using assms
proof (induction cs arbitrary: b audits)
  case Nil
  then show ?case by (simp add: on_layer_def)
next
  case (Cons c cs)
  obtain es where g: "gather c = Inr es" and clean: "list_all (\<lambda>e. \<not> blank (layer e)) es"
    using Cons.prems(2) by (auto simp: gathers_cleanly_def split: sum.splits)
  have ge: "gathered c = es" using g by (simp add: gathered_def)
  obtain counts b1 where
    ing: "ingest b es [] [] = (Inr (counts, [] @ map content (filter is_alert es)), b1)"
    and ok1: "layers_ok b1"
    and cnt: "\<And>k. get_count counts k = get_count [] k + int (length (on_layer k es))"
    and st1: "\<And>k. stored b1 k = stored b k @ on_layer k es"
    and keep1: "\<And>k. map_of (layers b) k \<noteq> None \<or> on_layer k es \<noteq> [] \<Longrightarrow> map_of (layers b1) k \<noteq> None"
    using ingest_ok [OF Cons.prems(1) clean, of "[]" "[]"] by blast
  let ?a = "\<lparr>audit_name = connector_name c, produced = int (length es),
             layer_counts = counts, alerts = map content (filter is_alert es)\<rparr>"
  have rest: "list_all gathers_cleanly cs" using Cons.prems(2) by simp
  obtain new b' where
    run: "run_connectors b1 cs (audits @ [?a]) = (Inr ((audits @ [?a]) @ new), b')"
    and ok': "layers_ok b'"
    and rel: "list_all2 (\<lambda>c a. audit_name a = connector_name c
            \<and> produced a = int (length (gathered c))
            \<and> alerts a = map content (filter is_alert (gathered c))
            \<and> (\<forall>k. get_count (layer_counts a) k = int (length (on_layer k (gathered c))))) cs new"
    and st': "\<And>k. stored b' k = stored b1 k @ on_layer k (concat (map gathered cs))"
    and keep': "\<And>k. map_of (layers b1) k \<noteq> None \<or> on_layer k (concat (map gathered cs)) \<noteq> []
            \<Longrightarrow> map_of (layers b') k \<noteq> None"
    using Cons.IH [OF ok1 rest, of "audits @ [?a]"] by blast
  have 1: "run_connectors b (c # cs) audits = (Inr (audits @ (?a # new)), b')"
    using g ing run by simp
  have 2: "list_all2 (\<lambda>c a. audit_name a = connector_name c
            \<and> produced a = int (length (gathered c))
            \<and> alerts a = map content (filter is_alert (gathered c))
            \<and> (\<forall>k. get_count (layer_counts a) k = int (length (on_layer k (gathered c)))))
          (c # cs) (?a # new)"
    using rel cnt ge by (simp add: get_count_def)
  have 3: "stored b' k = stored b k @ on_layer k (concat (map gathered (c # cs)))" for k
    using st' [of k] st1 [of k] ge by (simp add: on_layer_def)
  have 4: "map_of (layers b) k \<noteq> None \<or> on_layer k (concat (map gathered (c # cs))) \<noteq> []
            \<Longrightarrow> map_of (layers b') k \<noteq> None" for k
    using keep1 [of k] keep' [of k] ge by (auto simp: on_layer_def)
  show ?case using 1 ok' 2 3 4 by blast
qed

text \<open>
  C9. The bridge's layer dictionary is as the bridge builds it (every name leads to a
  layer of that name). \<open>run_cycle\<close> returns a report exactly when every \<open>gather()\<close>
  returns and no entry has a blank layer name. The report then has one audit per
  registered connector, in order, with the connector's name, the number of entries it
  produced, for every layer name (the sentinel \<open>ingestion_alerts\<close> as any other) the
  number of its entries on that layer as the layer's count, and as alerts the contents of
  its entries on \<open>ingestion_alerts\<close>, in entry order. Every layer, \<open>ingestion_alerts\<close>
  included, holds afterwards what it held before followed by the entries gathered for it,
  in order, and exists when an entry was gathered for it.
\<close>

theorem run_cycle_alerts:
  assumes "layers_ok (bridge op)"
  shows "((\<exists>report op'. run_cycle op now = (Inr report, op'))
            \<longleftrightarrow> list_all gathers_cleanly (map snd (registered op)))
     \<and> (list_all gathers_cleanly (map snd (registered op)) \<longrightarrow>
          (\<exists>report op'. run_cycle op now = (Inr report, op')
             \<and> list_all2 (\<lambda>c a. audit_name a = connector_name c
                    \<and> produced a = int (length (gathered c))
                    \<and> alerts a = map content (filter is_alert (gathered c))
                    \<and> (\<forall>k. get_count (layer_counts a) k = int (length (on_layer k (gathered c)))))
                  (map snd (registered op)) (connectors report)
             \<and> (\<forall>k. stored (bridge op') k
                    = stored (bridge op) k
                      @ on_layer k (concat (map gathered (map snd (registered op)))))
             \<and> (\<forall>k. on_layer k (concat (map gathered (map snd (registered op)))) \<noteq> []
                    \<longrightarrow> map_of (layers (bridge op')) k \<noteq> None)))"
proof -
  let ?cs = "map snd (registered op)"
  have ret: "list_all gathers_cleanly ?cs" if rc: "run_cycle op now = (Inr report, op')" for report op'
  proof -
    obtain r b' where run: "run_connectors (bridge op) ?cs [] = (r, b')"
      by (cases "run_connectors (bridge op) ?cs []")
    obtain audits where "r = Inr audits" using rc run by (cases r) (auto simp: run_cycle_def)
    then show ?thesis using run by (auto intro: run_connectors_returns)
  qed
  have ok: "\<exists>report op'. run_cycle op now = (Inr report, op')
             \<and> list_all2 (\<lambda>c a. audit_name a = connector_name c
                    \<and> produced a = int (length (gathered c))
                    \<and> alerts a = map content (filter is_alert (gathered c))
                    \<and> (\<forall>k. get_count (layer_counts a) k = int (length (on_layer k (gathered c)))))
                  ?cs (connectors report)
             \<and> (\<forall>k. stored (bridge op') k = stored (bridge op) k @ on_layer k (concat (map gathered ?cs)))
             \<and> (\<forall>k. on_layer k (concat (map gathered ?cs)) \<noteq> []
                    \<longrightarrow> map_of (layers (bridge op')) k \<noteq> None)"
    if clean: "list_all gathers_cleanly ?cs"
  proof -
    obtain new b' where
      run: "run_connectors (bridge op) ?cs [] = (Inr ([] @ new), b')"
      and rel: "list_all2 (\<lambda>c a. audit_name a = connector_name c
            \<and> produced a = int (length (gathered c))
            \<and> alerts a = map content (filter is_alert (gathered c))
            \<and> (\<forall>k. get_count (layer_counts a) k = int (length (on_layer k (gathered c)))))
          ?cs new"
      and st: "\<And>k. stored b' k = stored (bridge op) k @ on_layer k (concat (map gathered ?cs))"
      and keep: "\<And>k. map_of (layers (bridge op)) k \<noteq> None
              \<or> on_layer k (concat (map gathered ?cs)) \<noteq> []
            \<Longrightarrow> map_of (layers b') k \<noteq> None"
      using run_connectors_ok [OF assms clean, of "[]"] by blast
    have "run_cycle op now = (Inr \<lparr>report_timestamp = now, connectors = new\<rparr>, op\<lparr>bridge := b'\<rparr>)"
      using run by (simp add: run_cycle_def)
    then show ?thesis using rel st keep by simp
  qed
  show ?thesis using ret ok by blast
qed

theorem run_cycle_alerts_witness:
  "layers_ok (bridge alert_operator)
   \<and> list_all gathers_cleanly (map snd (registered alert_operator))
   \<and> (\<exists>report op'. run_cycle alert_operator (aware 5) = (Inr report, op')
        \<and> map audit_name (connectors report) = [''FILES'', ''ALERT'']
        \<and> map produced (connectors report) = [1, 1]
        \<and> map alerts (connectors report) = [[], [''dependency missing'']]
        \<and> map (\<lambda>a. get_count (layer_counts a) ''ingestion_alerts'') (connectors report) = [0, 1]
        \<and> stored (bridge op') ''ingestion_alerts''
             = [entry_at ''ingestion_alerts'' ''dependency missing'' (aware 1)]
        \<and> stored (bridge op') ''legal_evidence''
             = [entry_at ''legal_evidence'' ''note.txt'' (aware 1)])"
proof -
  have cs: "map snd (registered alert_operator) = [files_connector, alert_connector]"
    by (simp add: alert_operator_def OperatorCore_init_def files_connector_def alert_connector_def)
  have h: "layers_ok (bridge alert_operator)"
    by (simp add: alert_operator_def OperatorCore_init_def MemoryBridge_init_def layers_ok_def)
  have c: "list_all gathers_cleanly (map snd (registered alert_operator))"
    unfolding cs
    by (simp add: gathers_cleanly_def files_connector_def alert_connector_def entry_at_def
        blank_def is_space_def whitespace_chars_def)
  have g: "gathered files_connector = [entry_at ''legal_evidence'' ''note.txt'' (aware 1)]"
    "gathered alert_connector = [entry_at ''ingestion_alerts'' ''dependency missing'' (aware 1)]"
    by (simp_all add: gathered_def files_connector_def alert_connector_def)
  have e: "stored (bridge alert_operator) k = []" for k
    by (simp add: alert_operator_def OperatorCore_init_def MemoryBridge_init_def stored_def
        layer_entries_def)
  obtain report op' where run: "run_cycle alert_operator (aware 5) = (Inr report, op')"
    and rel: "list_all2 (\<lambda>c a. audit_name a = connector_name c
                    \<and> produced a = int (length (gathered c))
                    \<and> alerts a = map content (filter is_alert (gathered c))
                    \<and> (\<forall>k. get_count (layer_counts a) k = int (length (on_layer k (gathered c)))))
                  [files_connector, alert_connector] (connectors report)"
    and st: "\<And>k. stored (bridge op') k
                = stored (bridge alert_operator) k
                  @ on_layer k (concat (map gathered [files_connector, alert_connector]))"
    using run_cycle_alerts [OF h, of "aware 5"] c unfolding cs by blast
  obtain a1 a2 where r: "connectors report = [a1, a2]"
    and a1: "audit_name a1 = connector_name files_connector"
      "produced a1 = int (length (gathered files_connector))"
      "alerts a1 = map content (filter is_alert (gathered files_connector))"
      "get_count (layer_counts a1) ''ingestion_alerts''
         = int (length (on_layer ''ingestion_alerts'' (gathered files_connector)))"
    and a2: "audit_name a2 = connector_name alert_connector"
      "produced a2 = int (length (gathered alert_connector))"
      "alerts a2 = map content (filter is_alert (gathered alert_connector))"
      "get_count (layer_counts a2) ''ingestion_alerts''
         = int (length (on_layer ''ingestion_alerts'' (gathered alert_connector)))"
    using rel by (auto simp: list_all2_Cons1)
  have 1: "map audit_name (connectors report) = [''FILES'', ''ALERT'']"
    using r a1(1) a2(1) by (simp add: files_connector_def alert_connector_def)
  have 2: "map produced (connectors report) = [1, 1]"
    using r a1(2) a2(2) g by simp
  have 3: "map alerts (connectors report) = [[], [''dependency missing'']]"
    using r a1(3) a2(3) g by (simp add: is_alert_def entry_at_def)
  have 4: "map (\<lambda>a. get_count (layer_counts a) ''ingestion_alerts'') (connectors report) = [0, 1]"
    using r a1(4) a2(4) g by (simp add: on_layer_def entry_at_def)
  have 5: "stored (bridge op') ''ingestion_alerts''
             = [entry_at ''ingestion_alerts'' ''dependency missing'' (aware 1)]"
    using st [of "''ingestion_alerts''"] e g by (simp add: on_layer_def entry_at_def)
  have 6: "stored (bridge op') ''legal_evidence''
             = [entry_at ''legal_evidence'' ''note.txt'' (aware 1)]"
    using st [of "''legal_evidence''"] e g by (simp add: on_layer_def entry_at_def)
  have "\<exists>report op'. run_cycle alert_operator (aware 5) = (Inr report, op')
        \<and> map audit_name (connectors report) = [''FILES'', ''ALERT'']
        \<and> map produced (connectors report) = [1, 1]
        \<and> map alerts (connectors report) = [[], [''dependency missing'']]
        \<and> map (\<lambda>a. get_count (layer_counts a) ''ingestion_alerts'') (connectors report) = [0, 1]
        \<and> stored (bridge op') ''ingestion_alerts''
             = [entry_at ''ingestion_alerts'' ''dependency missing'' (aware 1)]
        \<and> stored (bridge op') ''legal_evidence''
             = [entry_at ''legal_evidence'' ''note.txt'' (aware 1)]"
    by (rule exI [of _ report], rule exI [of _ op']) (intro conjI run 1 2 3 4 5 6)
  then show ?thesis using h c by (intro conjI)
qed

subsection \<open>A connector that raises\<close>

text \<open>
  C1. The claim asks that an exception raised by one connector's \<open>gather()\<close> is caught,
  that the connector is reported with zero entries and that the others still run. With
  the connectors FILES, BROKEN and ALERT, where \<open>BROKEN.gather()\<close> raises, \<open>run_cycle\<close>
  has no handler around the call: the exception leaves \<open>run_cycle\<close>, no report is
  returned, the entry of FILES is already stored and ALERT is never run.
\<close>

theorem run_cycle_propagates_gather_exception:
  "map fst (registered broken_operator) = [''FILES'', ''BROKEN'', ''ALERT'']
   \<and> fst (run_cycle broken_operator (aware 5)) = Inl (Raised ''boom'')
   \<and> stored (bridge (snd (run_cycle broken_operator (aware 5)))) ''legal_evidence''
        = [entry_at ''legal_evidence'' ''note.txt'' (aware 1)]
   \<and> stored (bridge (snd (run_cycle broken_operator (aware 5)))) ''ingestion_alerts'' = []"
  by (simp add: broken_operator_def OperatorCore_init_def files_connector_def
      broken_connector_def alert_connector_def run_cycle_def entry_at_def register_layer_def
      strip_def lstrip_def rstrip_def is_space_def whitespace_chars_def MemoryBridge_init_def
      new_layer_def register_layer_spec_eq layer_add_def add_def MemoryLayer_init_def
      stored_def layer_entries_def all_def get_count_def)

subsection \<open>Recommendations\<close>

declare str_nat.simps [simp del]

lemma audit_recommendations_eq:
  "audit_recommendations as recs =
     recs @ concat (map (\<lambda>a. (if produced a = 0 then [no_entries_message (audit_name a)] else [])
                            @ (if alerts a \<noteq> []
                               then [alerts_message (audit_name a) (length (alerts a))] else [])) as)"
  by (induction as arbitrary: recs) (simp_all add: Let_def)

text \<open>
  C7. For every report, \<open>generate_recommendations\<close> returns a list that holds, for each
  connector that produced zero entries, the message about it, and for each connector with
  alerts, the message about it with the number of alerts; both messages contain the
  connector's name. When no connector produced zero entries or has alerts, the list is
  the all-nominal message alone. The list is never empty.
\<close>

theorem generate_recommendations_contract:
  "(\<forall>a \<in> set (connectors report). produced a = 0 \<longrightarrow>
       no_entries_message (audit_name a) \<in> set (generate_recommendations report))
   \<and> (\<forall>a \<in> set (connectors report). alerts a \<noteq> [] \<longrightarrow>
       alerts_message (audit_name a) (length (alerts a)) \<in> set (generate_recommendations report))
   \<and> ((\<forall>a \<in> set (connectors report). produced a \<noteq> 0 \<and> alerts a = []) \<longrightarrow>
       generate_recommendations report = [nominal_message])
   \<and> generate_recommendations report \<noteq> []
   \<and> (\<exists>pre post. no_entries_message n = pre @ n @ post)
   \<and> (\<exists>pre post. alerts_message n k = pre @ n @ post)"
proof -
  have "\<exists>pre post. no_entries_message n = pre @ n @ post"
    unfolding no_entries_message_def by (metis append.assoc)
  moreover have "\<exists>pre post. alerts_message n k = pre @ n @ post"
    unfolding alerts_message_def by (metis append.assoc)
  ultimately show ?thesis
    by (auto simp: generate_recommendations_def audit_recommendations_eq Let_def)
qed

theorem generate_recommendations_contract_witness:
  "generate_recommendations alert_report
     = [''Connector '' @ apostrophe @ ''ALERT'' @ apostrophe @ '' emitted 1 alerts that require review.'',
        ''Connector '' @ apostrophe @ ''EMPTY'' @ apostrophe @ '' produced no entries. Verify its data sources.'']
   \<and> generate_recommendations nominal_report
     = [''All connectors are operating nominally. Continue monitoring throughput.'']"
  using generate_recommendations_contract [of alert_report "''ALERT''" 1]
    generate_recommendations_contract [of nominal_report "''FILES''" 0]
  by (simp add: alert_report_def nominal_report_def generate_recommendations_def
      no_entries_message_def alerts_message_def nominal_message_def str_nat.simps [of 1] str_nat.simps [of "Suc 0"]
      digit_char_def apostrophe_def)

end
